theory Spec2Isabelle
  imports Main "HOL-Library.Sublist"
begin

section \<open>JavaScript numbers\<close>

text \<open>
  Every size and count in \<^verbatim>\<open>scanner.js\<close> is a JavaScript number, an IEEE double. The
  ones that occur are natural numbers, so the model keeps them as naturals and writes the
  rounding of a double out: \<open>toDouble n\<close> is the double nearest to \<open>n\<close>, the one with the
  even mantissa on a tie. A natural number up to \<open>2^53\<close> is a double. From \<open>2^53\<close> on, a
  double has 53 significant bits: with \<open>e\<close> the exponent of the last of them, it is a
  multiple of \<open>2^e\<close>. \<open>jsAdd\<close> is \<^verbatim>\<open>+\<close> on two such numbers: the exact sum, rounded.

  \<open>floorLog k n\<close> is the number of times \<open>n\<close> can be divided by \<open>k\<close> before it drops below
  \<open>k\<close>, the integer part of the logarithm of \<open>n\<close> to the base \<open>k\<close>.

  A double turns into \<^verbatim>\<open>Infinity\<close> near \<open>2^1024\<close>. A file is shorter than \<open>2^63\<close> bytes, so no
  walk comes near it, and the model has no value for it.
\<close>

function floorLog :: "nat \<Rightarrow> nat \<Rightarrow> nat" where
  "floorLog k n = (if k < 2 \<or> n < k then 0 else Suc (floorLog k (n div k)))"
  by pat_completeness auto
termination
  by (relation "measure (\<lambda>(k, n). n)") auto

declare floorLog.simps [simp del]

definition toDouble :: "nat \<Rightarrow> nat" where
  "toDouble n =
     (if n < 2 ^ 53 then n
      else let e = floorLog 2 n - 52;
               q = n div 2 ^ e;
               r = n mod 2 ^ e
           in if 2 * r < 2 ^ e \<or> (2 * r = 2 ^ e \<and> even q) then q * 2 ^ e
              else Suc q * 2 ^ e)"

definition jsAdd :: "nat \<Rightarrow> nat \<Rightarrow> nat" where
  "jsAdd a b = toDouble (a + b)"

section \<open>The file system as the scanner sees it\<close>

text \<open>
  \<^verbatim>\<open>scanner.js\<close> touches the disk through three calls of Node's \<^verbatim>\<open>fs\<close> module only:
  \<^verbatim>\<open>existsSync\<close>, \<^verbatim>\<open>statSync\<close> and \<^verbatim>\<open>readdirSync\<close>. A \<open>node\<close> records what these
  calls answer at one path, and for a directory the names it lists together with the
  nodes found under them.

  \<^item> \<open>Missing\<close>: \<^verbatim>\<open>existsSync\<close> answers false (no such entry, or the lookup is refused).
  \<^item> \<open>StatFails e\<close>: \<^verbatim>\<open>existsSync\<close> answers true, \<^verbatim>\<open>statSync\<close> throws \<open>e\<close> (the entry
    vanished in between, permission, I/O error).
  \<^item> \<open>File n\<close>: a regular file of \<open>n\<close> bytes; \<^verbatim>\<open>stats.size\<close> is the double nearest to
    \<open>n\<close>.
  \<^item> \<open>Dir es\<close>: a directory whose listing is \<open>es\<close>, in listing order.
  \<^item> \<open>DirUnreadable e\<close>: a directory whose listing throws \<open>e\<close>.
  \<^item> \<open>Other\<close>: a socket, device or FIFO.
  \<^item> \<open>Symlink t\<close>: a symbolic link whose target is \<open>t\<close> (\<open>Missing\<close> for a dangling link).
    All three calls resolve links: \<^verbatim>\<open>statSync\<close> is \<^verbatim>\<open>stat(2)\<close>, not \<^verbatim>\<open>lstat(2)\<close>.

  A walk asks each path once, so a tree also describes a disk that changes while it is
  walked: a node holds the answers given at the moment the walk asks.

  The tree is the disk unfolded along its paths. A file that can be reached by several
  paths, by a link next to it or by a second hard link, stands in the tree once for each
  of these paths. A link that leads back to a directory above it repeats that directory
  below itself, as often as the operating system accepts the growing path; where the path
  is refused, \<^verbatim>\<open>existsSync\<close> answers false and the tree ends.
\<close>

type_synonym path = "string list"

datatype fs_error = ENOENT | EACCES | EIO | ENOTDIR | ELOOP

datatype node =
    Missing
  | StatFails fs_error
  | File nat
  | Dir "(string \<times> node) list"
  | DirUnreadable fs_error
  | Other
  | Symlink node

record stats =
  isFile :: bool
  isDirectory :: bool
  st_size :: nat

text \<open>\<^verbatim>\<open>path.join(currentPath, file)\<close> and \<^verbatim>\<open>path.basename(currentPath)\<close>, on paths kept
  as lists of components.\<close>

definition join :: "path \<Rightarrow> string \<Rightarrow> path" where
  "join currentPath file = currentPath @ [file]"

definition basename :: "path \<Rightarrow> string" where
  "basename currentPath = (if currentPath = [] then [] else last currentPath)"

fun existsSync :: "node \<Rightarrow> bool" where
  "existsSync Missing = False"
| "existsSync (Symlink t) = existsSync t"
| "existsSync _ = True"

text \<open>The size a directory or a special node reports is never read by the scanner; the
  model gives 0.\<close>

fun statSync :: "node \<Rightarrow> fs_error + stats" where
  "statSync Missing = Inl ENOENT"
| "statSync (StatFails e) = Inl e"
| "statSync (File n) = Inr \<lparr>isFile = True, isDirectory = False, st_size = toDouble n\<rparr>"
| "statSync (Dir es) = Inr \<lparr>isFile = False, isDirectory = True, st_size = 0\<rparr>"
| "statSync (DirUnreadable e) = Inr \<lparr>isFile = False, isDirectory = True, st_size = 0\<rparr>"
| "statSync Other = Inr \<lparr>isFile = False, isDirectory = False, st_size = 0\<rparr>"
| "statSync (Symlink t) = statSync t"

fun readdirSync :: "node \<Rightarrow> fs_error + (string \<times> node) list" where
  "readdirSync (Dir es) = Inr es"
| "readdirSync (DirUnreadable e) = Inl e"
| "readdirSync (Symlink t) = readdirSync t"
| "readdirSync Missing = Inl ENOENT"
| "readdirSync (StatFails e) = Inl e"
| "readdirSync (File n) = Inl ENOTDIR"
| "readdirSync Other = Inl ENOTDIR"

lemma readdirSync_smaller:
  "readdirSync n = Inr files \<Longrightarrow> (file, child) \<in> set files \<Longrightarrow> size child < size n"
proof (induction n)
  case (Dir es)
  then have "(file, child) \<in> set es" by simp
  then have "size_prod (\<lambda>_. 0) size (file, child) \<le> size_list (size_prod (\<lambda>_. 0) size) es"
    by (rule size_list_estimation') simp
  then show ?case by simp
qed simp_all

section \<open>getDirectorySize\<close>

record fileRecord =
  f_path :: path
  f_size :: nat
  f_name :: string

record progress =
  currentFile :: string
  p_totalSize :: nat
  p_itemCount :: nat
  inProgress :: bool

text \<open>The variables \<^verbatim>\<open>totalSize\<close>, \<^verbatim>\<open>itemCount\<close> and \<^verbatim>\<open>processedItems\<close> that
  \<^verbatim>\<open>processDirectory\<close> closes over, with the two effects of a walk: what the callback
  has done so far (\<open>sink\<close>, the callback being a state transformer) and the paths
  written to \<^verbatim>\<open>console.error\<close>. What \<^verbatim>\<open>processDirectory\<close> itself returns is never
  read by its callers, so the model returns the state alone. The \<^verbatim>\<open>catch\<close> is the
  \<open>Inl\<close> branch of each call that can throw.\<close>

record 's walk =
  totalSize :: nat
  itemCount :: nat
  processedItems :: "fileRecord list"
  sink :: 's
  console :: "path list"

function processDirectory ::
  "(progress \<Rightarrow> 's \<Rightarrow> 's) option \<Rightarrow> path \<Rightarrow> node \<Rightarrow> 's walk \<Rightarrow> 's walk" where
  "processDirectory callback currentPath n w =
    (if \<not> existsSync n then w
     else case statSync n of
       Inl err \<Rightarrow> w\<lparr>console := console w @ [currentPath]\<rparr>
     | Inr stats \<Rightarrow>
         if isFile stats then
           (let w1 = w\<lparr>totalSize := jsAdd (totalSize w) (st_size stats),
                       itemCount := jsAdd (itemCount w) 1,
                       processedItems := processedItems w @
                         [\<lparr>f_path = currentPath, f_size = st_size stats,
                           f_name = basename currentPath\<rparr>]\<rparr>
            in case callback of
                 None \<Rightarrow> w1
               | Some cb \<Rightarrow>
                   w1\<lparr>sink := cb \<lparr>currentFile = basename currentPath,
                                   p_totalSize = totalSize w1,
                                   p_itemCount = itemCount w1,
                                   inProgress = True\<rparr> (sink w1)\<rparr>)
         else if isDirectory stats then
           (case readdirSync n of
              Inl err \<Rightarrow> w\<lparr>console := console w @ [currentPath]\<rparr>
            | Inr files \<Rightarrow>
                fold (\<lambda>(file, child). processDirectory callback (join currentPath file) child)
                  files w)
         else w)"
  by pat_completeness auto
termination
  by (relation "measure (\<lambda>(callback, currentPath, n, w). size n)")
     (auto dest: readdirSync_smaller)

declare processDirectory.simps [simp del]

text \<open>What \<^verbatim>\<open>getDirectorySize\<close> returns (\<^verbatim>\<open>{ size, items, files }\<close>).\<close>

record dirResult =
  r_size :: nat
  r_items :: nat
  r_files :: "fileRecord list"

text \<open>\<^verbatim>\<open>getDirectorySize(dirPath, callback)\<close>. \<open>root\<close> is what the disk holds at
  \<open>dirPath\<close> and \<open>s\<close> the state the callback acts on; next to the returned object the
  model gives that state after the walk and the lines written to \<^verbatim>\<open>console.error\<close>.
  No exception leaves the function: the whole body of \<^verbatim>\<open>processDirectory\<close> is inside
  its \<^verbatim>\<open>try\<close>, so the result is a plain value. The callback is taken to return
  normally.\<close>

definition getDirectorySize ::
  "node \<Rightarrow> path \<Rightarrow> (progress \<Rightarrow> 's \<Rightarrow> 's) option \<Rightarrow> 's \<Rightarrow> dirResult \<times> 's \<times> path list" where
  "getDirectorySize root dirPath callback s =
    (let w = processDirectory callback dirPath root
               \<lparr>totalSize = 0, itemCount = 0, processedItems = [], sink = s, console = []\<rparr>
     in (\<lparr>r_size = totalSize w, r_items = itemCount w, r_files = processedItems w\<rparr>,
         sink w, console w))"

section \<open>formatBytes\<close>

text \<open>
  \<^verbatim>\<open>formatBytes\<close> on a non-negative integer byte count. Its arithmetic is floating point
  in the source; the model of this function is exact arithmetic on naturals. The two agree
  on every byte count below \<open>1024^4\<close>, and from \<open>1024^4\<close> on both compute an index of at
  least 4:
  \<^item> \<^verbatim>\<open>Math.floor(Math.log(bytes) / Math.log(k))\<close> is \<open>floorLog k bytes\<close>;
  \<^item> \<^verbatim>\<open>bytes / Math.pow(k, i)\<close> is exact, a division by a power of two;
  \<^item> \<^verbatim>\<open>parseFloat(x.toFixed(2))\<close> is the number with two decimals nearest to \<open>x\<close>, the
    larger one on a tie; \<open>toFixed2 bytes d\<close> is that number for \<open>x = bytes / d\<close>, counted
    in hundredths;
  \<^item> appending a string to that number prints it in the shortest form, without trailing
    zeros and without a point when it is whole: \<open>numberToString\<close>;
  \<^item> \<^verbatim>\<open>sizes[i]\<close> beyond the array is \<^verbatim>\<open>undefined\<close>, which the concatenation prints as
    the word.
\<close>

definition sizes :: "string list" where
  "sizes = [''B'', ''KB'', ''MB'', ''GB'']"

definition toFixed2 :: "nat \<Rightarrow> nat \<Rightarrow> nat" where
  "toFixed2 bytes d = (200 * bytes + d) div (2 * d)"

definition digit :: "nat \<Rightarrow> char" where
  "digit n = ''0123456789'' ! (n mod 10)"

function showNat :: "nat \<Rightarrow> string" where
  "showNat n = (if n < 10 then [digit n] else showNat (n div 10) @ [digit n])"
  by pat_completeness auto
termination
  by (relation "measure (\<lambda>n. n)") auto

declare showNat.simps [simp del]

definition numberToString :: "nat \<Rightarrow> string" where
  "numberToString h =
     showNat (h div 100) @
     (if h mod 100 = 0 then []
      else if h mod 10 = 0 then [CHR ''.'', digit (h div 10)]
      else [CHR ''.'', digit (h div 10), digit h])"

definition formatBytes :: "nat \<Rightarrow> string" where
  "formatBytes bytes =
     (if bytes = 0 then ''0 B''
      else let k = 1024;
               i = floorLog k bytes
           in numberToString (toFixed2 bytes (k ^ i)) @ '' '' @
              (if i < length sizes then sizes ! i else ''undefined''))"

section \<open>scanSafariStorage\<close>

text \<open>The five keys of \<^verbatim>\<open>SAFARI_PATHS\<close> that the scan visits (the sixth, \<^verbatim>\<open>webData\<close>, is
  never read), with \<^verbatim>\<open>os.homedir()\<close> as a parameter.\<close>

datatype category = Cookies | Cache | History | LocalStorage | Databases

definition SAFARI_PATHS :: "path \<Rightarrow> category \<Rightarrow> path" where
  "SAFARI_PATHS homedir c =
     (case c of
        Cookies \<Rightarrow> homedir @ [''Library'', ''Cookies'']
      | Cache \<Rightarrow> homedir @ [''Library'', ''Caches'', ''com.apple.Safari'']
      | History \<Rightarrow> homedir @ [''Library'', ''Safari'']
      | LocalStorage \<Rightarrow> homedir @ [''Library'', ''Safari'', ''LocalStorage'']
      | Databases \<Rightarrow> homedir @ [''Library'', ''Safari'', ''Databases''])"

definition categories :: "category list" where
  "categories = [Cookies, Cache, History, LocalStorage, Databases]"

record totals =
  t_size :: nat
  t_items :: nat

record slot =
  s_size :: nat
  s_items :: nat
  s_category :: string

record results =
  byCategory :: "category \<Rightarrow> slot"
  total :: totals

definition initialResults :: results where
  "initialResults =
     \<lparr>byCategory = (\<lambda>c. \<lparr>s_size = 0, s_items = 0,
         s_category = (case c of
            Cookies \<Rightarrow> ''Browsing cookies''
          | Cache \<Rightarrow> ''Browser cache''
          | History \<Rightarrow> ''Website history''
          | LocalStorage \<Rightarrow> ''Local storage''
          | Databases \<Rightarrow> ''Web databases'')\<rparr>),
      total = \<lparr>t_size = 0, t_items = 0\<rparr>\<rparr>"

text \<open>The two shapes of object handed to \<^verbatim>\<open>progressCallback\<close>:
  \<^verbatim>\<open>{ scanning, message, current }\<close> before a category is walked and
  \<^verbatim>\<open>{ scanning, message, currentSize, currentItems, total }\<close> for each file. An event
  holds the numbers as the callback finds them while it runs.

  The \<^verbatim>\<open>total\<close> of a per-file event is an object of its own. The \<^verbatim>\<open>current\<close> of the
  first kind is not: it is the object \<^verbatim>\<open>results.total\<close> itself, which the scan goes on
  adding to. A callback that keeps such an event and reads \<^verbatim>\<open>current\<close> later finds the
  totals of that later moment; \<open>readLater r e\<close> is what the event \<open>e\<close> reads once the
  results are \<open>r\<close>.\<close>

datatype event =
    Started category string totals
  | Found category string nat nat totals

fun readLater :: "results \<Rightarrow> event \<Rightarrow> event" where
  "readLater r (Started c m cur) = Started c m (total r)"
| "readLater r (Found c m sz n tot) = Found c m sz n tot"

text \<open>The state of a scan: \<^verbatim>\<open>results\<close>, what the progress callback has done so far, and
  the lines written to \<^verbatim>\<open>console.error\<close>.\<close>

record 's scan =
  res :: results
  out :: 's
  err :: "path list"

text \<open>The body of the loop over \<^verbatim>\<open>categories\<close>. \<open>disk\<close> gives what is found at a path.
  The pause of 100 ms between the first event and the walk changes no value.\<close>

definition scanCategory ::
  "(event \<Rightarrow> 's \<Rightarrow> 's) option \<Rightarrow> path \<Rightarrow> (path \<Rightarrow> node) \<Rightarrow> category \<Rightarrow> 's scan \<Rightarrow> 's scan" where
  "scanCategory progressCallback homedir disk c st =
    (let results = res st;
         dirPath = SAFARI_PATHS homedir c;
         s1 = (case progressCallback of
                 None \<Rightarrow> out st
               | Some pc \<Rightarrow>
                   pc (Started c (''Scanning '' @ s_category (byCategory results c) @ ''...'')
                         (total results)) (out st));
         (data, s2, lines) =
           getDirectorySize (disk dirPath) dirPath
             (Some (\<lambda>progress s.
                case progressCallback of
                  None \<Rightarrow> s
                | Some pc \<Rightarrow>
                    pc (Found c (''Found: '' @ currentFile progress)
                          (p_totalSize progress) (p_itemCount progress)
                          \<lparr>t_size = jsAdd (t_size (total results)) (p_totalSize progress),
                           t_items = jsAdd (t_items (total results)) (p_itemCount progress)\<rparr>) s))
             s1
     in \<lparr>res = \<lparr>byCategory = (byCategory results)
                 (c := (byCategory results c)\<lparr>s_size := r_size data, s_items := r_items data\<rparr>),
               total = \<lparr>t_size = jsAdd (t_size (total results)) (r_size data),
                        t_items = jsAdd (t_items (total results)) (r_items data)\<rparr>\<rparr>,
         out = s2,
         err = err st @ lines\<rparr>)"

definition scanSafariStorage ::
  "(event \<Rightarrow> 's \<Rightarrow> 's) option \<Rightarrow> path \<Rightarrow> (path \<Rightarrow> node) \<Rightarrow> 's \<Rightarrow> 's scan" where
  "scanSafariStorage progressCallback homedir disk s =
     fold (scanCategory progressCallback homedir disk) categories
       \<lparr>res = initialResults, out = s, err = []\<rparr>"

section \<open>Reference descriptions\<close>

text \<open>The definitions of this section are not taken from the source. They describe, by
  recursion on the tree, what a walk is expected to produce, and the theorems compare the
  code with them.\<close>

text \<open>The byte sizes of the regular files of a tree, one entry for every path that leads to
  a regular file through directories, in listing order; through symbolic links as well
  when \<open>follow\<close> is set. With \<open>follow = False\<close> this is the measure that leaves symbolic
  links and special nodes out.\<close>

fun regularFileSizes :: "bool \<Rightarrow> node \<Rightarrow> nat list" where
  "regularFileSizes follow (File n) = [n]"
| "regularFileSizes follow (Dir es) =
     concat (map (\<lambda>(file, child). regularFileSizes follow child) es)"
| "regularFileSizes follow (Symlink t) = (if follow then regularFileSizes follow t else [])"
| "regularFileSizes follow _ = []"

text \<open>The file records of a walk from \<open>p\<close>, and the paths at which a call throws.\<close>

fun visited :: "path \<Rightarrow> node \<Rightarrow> fileRecord list" where
  "visited p (File n) = [\<lparr>f_path = p, f_size = toDouble n, f_name = basename p\<rparr>]"
| "visited p (Dir es) = concat (map (\<lambda>(file, child). visited (join p file) child) es)"
| "visited p (Symlink t) = visited p t"
| "visited p _ = []"

fun faults :: "path \<Rightarrow> node \<Rightarrow> path list" where
  "faults p (StatFails e) = [p]"
| "faults p (DirUnreadable e) = [p]"
| "faults p (Dir es) = concat (map (\<lambda>(file, child). faults (join p file) child) es)"
| "faults p (Symlink t) = faults p t"
| "faults p _ = []"

text \<open>The rounding of \<open>toDouble\<close> once the exponent \<open>e\<close> of the last mantissa bit is known.\<close>

definition roundAt :: "nat \<Rightarrow> nat \<Rightarrow> nat" where
  "roundAt e n =
     (if 2 * (n mod 2 ^ e) < 2 ^ e \<or> (2 * (n mod 2 ^ e) = 2 ^ e \<and> even (n div 2 ^ e))
      then n div 2 ^ e * 2 ^ e else Suc (n div 2 ^ e) * 2 ^ e)"

text \<open>A running total \<open>a\<close> after the numbers \<open>xs\<close> have been added to it one by one, each
  sum rounded as the code rounds it.\<close>

definition addAll :: "nat \<Rightarrow> nat list \<Rightarrow> nat" where
  "addAll a xs = foldl jsAdd a xs"

text \<open>The progress objects of a run of files, from the totals \<open>ts\<close> and \<open>ic\<close> on.\<close>

fun progressList :: "nat \<Rightarrow> nat \<Rightarrow> fileRecord list \<Rightarrow> progress list" where
  "progressList ts ic [] = []"
| "progressList ts ic (f # fs) =
     \<lparr>currentFile = f_name f, p_totalSize = jsAdd ts (f_size f), p_itemCount = jsAdd ic 1,
      inProgress = True\<rparr> # progressList (jsAdd ts (f_size f)) (jsAdd ic 1) fs"

definition emit :: "('a \<Rightarrow> 's \<Rightarrow> 's) option \<Rightarrow> 'a list \<Rightarrow> 's \<Rightarrow> 's" where
  "emit callback xs s = (case callback of None \<Rightarrow> s | Some cb \<Rightarrow> fold cb xs s)"

definition walked ::
  "(progress \<Rightarrow> 's \<Rightarrow> 's) option \<Rightarrow> fileRecord list \<Rightarrow> path list \<Rightarrow> 's walk \<Rightarrow> 's walk" where
  "walked callback fs errs w =
     \<lparr>totalSize = addAll (totalSize w) (map f_size fs),
      itemCount = addAll (itemCount w) (map (\<lambda>f. 1) fs),
      processedItems = processedItems w @ fs,
      sink = emit callback (progressList (totalSize w) (itemCount w) fs) (sink w),
      console = console w @ errs\<rparr>"

text \<open>A node that exists and at which \<^verbatim>\<open>statSync\<close> throws, or that is a directory whose
  \<^verbatim>\<open>readdirSync\<close> throws.\<close>

definition accessFails :: "node \<Rightarrow> bool" where
  "accessFails n =
     (existsSync n \<and>
      (case statSync n of
         Inl e \<Rightarrow> True
       | Inr st \<Rightarrow>
           (if isFile st then False
            else if isDirectory st then (case readdirSync n of Inl e \<Rightarrow> True | Inr files \<Rightarrow> False)
            else False)))"

text \<open>A progress callback that keeps every event it is given, in order, with the numbers
  it finds in it while it runs.\<close>

definition recordEvent :: "event \<Rightarrow> event list \<Rightarrow> event list" where
  "recordEvent e log = log @ [e]"

text \<open>The \<^verbatim>\<open>scanning\<close> field of an event, and its grand total (\<^verbatim>\<open>current\<close> or
  \<^verbatim>\<open>total\<close>).\<close>

fun scanningOf :: "event \<Rightarrow> category" where
  "scanningOf (Started c m cur) = c"
| "scanningOf (Found c m sz n tot) = c"

fun grandTotal :: "event \<Rightarrow> totals" where
  "grandTotal (Started c m cur) = cur"
| "grandTotal (Found c m sz n tot) = tot"

text \<open>The pairs \<^verbatim>\<open>(currentSize, currentItems)\<close> of the per-file events of one category, in
  the order of the log.\<close>

fun categoryProgress :: "category \<Rightarrow> event list \<Rightarrow> (nat \<times> nat) list" where
  "categoryProgress c [] = []"
| "categoryProgress c (Started d m cur # es) = categoryProgress c es"
| "categoryProgress c (Found d m sz n tot # es) =
     (if d = c then (sz, n) # categoryProgress c es else categoryProgress c es)"

text \<open>The running subtotals of a walk that meets files of the given sizes: after the
  \<open>k\<close>-th file, the sum of the first \<open>k\<close> sizes and the count \<open>k\<close>.\<close>

definition runningTotals :: "nat list \<Rightarrow> (nat \<times> nat) list" where
  "runningTotals szs = map (\<lambda>k. (sum_list (take k szs), k)) [1..<Suc (length szs)]"

text \<open>What \<^verbatim>\<open>getDirectorySize\<close> returns for the root of a category, walked on its own.\<close>

definition categoryResult :: "path \<Rightarrow> (path \<Rightarrow> node) \<Rightarrow> category \<Rightarrow> dirResult" where
  "categoryResult homedir disk c =
     fst (getDirectorySize (disk (SAFARI_PATHS homedir c)) (SAFARI_PATHS homedir c) None ())"

text \<open>The sum of what \<^verbatim>\<open>getDirectorySize\<close> returns for the categories that come before \<open>c\<close>
  in the order of the scan.\<close>

definition completedBefore :: "path \<Rightarrow> (path \<Rightarrow> node) \<Rightarrow> category \<Rightarrow> totals" where
  "completedBefore homedir disk c =
     \<lparr>t_size = sum_list (map (\<lambda>d. r_size (categoryResult homedir disk d))
                 (takeWhile (\<lambda>d. d \<noteq> c) categories)),
      t_items = sum_list (map (\<lambda>d. r_items (categoryResult homedir disk d))
                 (takeWhile (\<lambda>d. d \<noteq> c) categories))\<rparr>"

text \<open>The bytes and the number of the files that a scan walks: those of the five roots,
  added up.\<close>

definition scanBytes :: "path \<Rightarrow> (path \<Rightarrow> node) \<Rightarrow> nat" where
  "scanBytes homedir disk =
     sum_list (map (\<lambda>c. sum_list (regularFileSizes True (disk (SAFARI_PATHS homedir c))))
       categories)"

definition scanFiles :: "path \<Rightarrow> (path \<Rightarrow> node) \<Rightarrow> nat" where
  "scanFiles homedir disk =
     sum_list (map (\<lambda>c. length (regularFileSizes True (disk (SAFARI_PATHS homedir c))))
       categories)"

text \<open>The files of a category, the results once it has been walked, and the events its
  walk gives to the progress callback.\<close>

definition categoryFiles :: "path \<Rightarrow> (path \<Rightarrow> node) \<Rightarrow> category \<Rightarrow> fileRecord list" where
  "categoryFiles homedir disk c = visited (SAFARI_PATHS homedir c) (disk (SAFARI_PATHS homedir c))"

definition addCategory :: "path \<Rightarrow> (path \<Rightarrow> node) \<Rightarrow> category \<Rightarrow> results \<Rightarrow> results" where
  "addCategory homedir disk c r =
     \<lparr>byCategory = (byCategory r)
        (c := (byCategory r c)
           \<lparr>s_size := addAll 0 (map f_size (categoryFiles homedir disk c)),
            s_items := addAll 0 (map (\<lambda>f. 1) (categoryFiles homedir disk c))\<rparr>),
      total = \<lparr>t_size = jsAdd (t_size (total r))
                 (addAll 0 (map f_size (categoryFiles homedir disk c))),
               t_items = jsAdd (t_items (total r))
                 (addAll 0 (map (\<lambda>f. 1) (categoryFiles homedir disk c)))\<rparr>\<rparr>"

definition fileEvents :: "category \<Rightarrow> totals \<Rightarrow> fileRecord list \<Rightarrow> event list" where
  "fileEvents c t fs =
     map (\<lambda>pr. Found c (''Found: '' @ currentFile pr) (p_totalSize pr) (p_itemCount pr)
                 \<lparr>t_size = jsAdd (t_size t) (p_totalSize pr),
                  t_items = jsAdd (t_items t) (p_itemCount pr)\<rparr>)
       (progressList 0 0 fs)"

definition categoryEvents :: "path \<Rightarrow> (path \<Rightarrow> node) \<Rightarrow> category \<Rightarrow> results \<Rightarrow> event list" where
  "categoryEvents homedir disk c r =
     Started c (''Scanning '' @ s_category (byCategory r c) @ ''...'') (total r) #
     fileEvents c (total r) (categoryFiles homedir disk c)"

fun scanEvents :: "path \<Rightarrow> (path \<Rightarrow> node) \<Rightarrow> results \<Rightarrow> category list \<Rightarrow> event list" where
  "scanEvents homedir disk r [] = []"
| "scanEvents homedir disk r (c # cs) =
     categoryEvents homedir disk c r @ scanEvents homedir disk (addCategory homedir disk c r) cs"

text \<open>The sum over the five categories of the size, and of the item count, that a summary
  holds for the category.\<close>

definition slotSizes :: "results \<Rightarrow> nat" where
  "slotSizes r =
     s_size (byCategory r Cookies) + s_size (byCategory r Cache) +
     s_size (byCategory r History) + s_size (byCategory r LocalStorage) +
     s_size (byCategory r Databases)"

definition slotItems :: "results \<Rightarrow> nat" where
  "slotItems r =
     s_items (byCategory r Cookies) + s_items (byCategory r Cache) +
     s_items (byCategory r History) + s_items (byCategory r LocalStorage) +
     s_items (byCategory r Databases)"

text \<open>Two disks for the examples, each given by what is found at a path, with the home
  directory \<^verbatim>\<open>/Users/me\<close>. The small one holds three cookie files of 100, 200 and 300
  bytes, a history file and one file of local storage. The big one holds a cookie file
  of \<open>2^53\<close> bytes and two files of one byte, in the cache and in the history.\<close>

definition smallDisk :: "path \<Rightarrow> node" where
  "smallDisk p =
     (if p = [''Users'', ''me'', ''Library'', ''Cookies'']
      then Dir [(''a'', File 100), (''b'', File 200), (''c'', File 300)]
      else if p = [''Users'', ''me'', ''Library'', ''Safari'']
      then Dir [(''History.db'', File 50), (''LocalStorage'', Dir [(''x'', File 7)])]
      else if p = [''Users'', ''me'', ''Library'', ''Safari'', ''LocalStorage'']
      then Dir [(''x'', File 7)]
      else Missing)"

definition bigDisk :: "path \<Rightarrow> node" where
  "bigDisk p =
     (if p = [''Users'', ''me'', ''Library'', ''Cookies'']
      then Dir [(''big'', File 9007199254740992)]
      else if p = [''Users'', ''me'', ''Library'', ''Caches'', ''com.apple.Safari'']
      then Dir [(''one'', File 1)]
      else if p = [''Users'', ''me'', ''Library'', ''Safari'']
      then Dir [(''h'', File 1)]
      else Missing)"

section \<open>Rounding to a double\<close>

lemma floorLog_bounds:
  "2 \<le> k \<Longrightarrow> 0 < n \<Longrightarrow> k ^ floorLog k n \<le> n \<and> n < k ^ Suc (floorLog k n)"
proof (induction k n rule: floorLog.induct)
  case (1 k n)
  show ?case
  proof (cases "n < k")
    case True
    with "1.prems" show ?thesis by (simp add: floorLog.simps [of k n])
  next
    case False
    with "1.prems" have pos: "0 < n div k"
      by (simp add: div_greater_zero_iff)
    from False "1.prems" have step: "floorLog k n = Suc (floorLog k (n div k))"
      by (simp add: floorLog.simps [of k n])
    from "1.IH" False "1.prems" pos
    have ih: "k ^ floorLog k (n div k) \<le> n div k" "n div k < k ^ Suc (floorLog k (n div k))"
      by simp_all
    have "k * k ^ floorLog k (n div k) \<le> k * (n div k)"
      using ih(1) by simp
    also have "\<dots> \<le> n"
      by simp
    finally have lower: "k ^ Suc (floorLog k (n div k)) \<le> n"
      by simp
    have "Suc (n div k) \<le> k ^ Suc (floorLog k (n div k))"
      using ih(2) by simp
    then have "k * Suc (n div k) \<le> k * k ^ Suc (floorLog k (n div k))"
      by (rule mult_le_mono2)
    moreover have "n < k * Suc (n div k)"
      using "1.prems" by (simp add: dividend_less_times_div)
    ultimately have upper: "n < k ^ Suc (Suc (floorLog k (n div k)))"
      by simp
    show ?thesis
      unfolding step using lower upper by blast
  qed
qed

lemma ulp_bounds:
  assumes "2 ^ 53 \<le> n"
  defines "e \<equiv> floorLog 2 n - 52"
  shows "1 \<le> e" and "2 ^ (52 + e) \<le> n" and "n < 2 ^ (53 + e)"
proof -
  have pos: "0 < n"
    using assms(1) by (metis less_le_trans zero_less_numeral zero_less_power)
  have b: "2 ^ floorLog 2 n \<le> n" "n < 2 ^ Suc (floorLog 2 n)"
    using floorLog_bounds [of 2 n] pos by simp_all
  have "(2::nat) ^ 53 < 2 ^ Suc (floorLog 2 n)"
    using assms(1) b(2) by (rule le_less_trans)
  then have "53 < Suc (floorLog 2 n)"
    by (rule power_less_imp_less_exp [rotated]) simp
  then have f: "53 \<le> floorLog 2 n" by simp
  then show "1 \<le> e" by (simp add: e_def)
  have eq: "52 + e = floorLog 2 n" using f by (simp add: e_def)
  show "2 ^ (52 + e) \<le> n" unfolding eq by (rule b(1))
  have eq2: "53 + e = Suc (floorLog 2 n)" using f by (simp add: e_def)
  show "n < 2 ^ (53 + e)" unfolding eq2 by (rule b(2))
qed

lemma floorLog_unique:
  "2 ^ a \<le> n \<Longrightarrow> n < 2 ^ Suc a \<Longrightarrow> floorLog 2 n = a"
proof -
  assume lo: "2 ^ a \<le> n" and hi: "n < 2 ^ Suc a"
  have pos: "0 < n"
    using lo by (metis less_le_trans zero_less_numeral zero_less_power)
  have b: "2 ^ floorLog 2 n \<le> n" "n < 2 ^ Suc (floorLog 2 n)"
    using floorLog_bounds [of 2 n] pos by simp_all
  have "(2::nat) ^ a < 2 ^ Suc (floorLog 2 n)"
    using lo b(2) by (rule le_less_trans)
  then have 1: "a < Suc (floorLog 2 n)"
    by (rule power_less_imp_less_exp [rotated]) simp
  have "(2::nat) ^ floorLog 2 n < 2 ^ Suc a"
    using b(1) hi by (rule le_less_trans)
  then have 2: "floorLog 2 n < Suc a"
    by (rule power_less_imp_less_exp [rotated]) simp
  from 1 2 show ?thesis by simp
qed

lemma toDouble_roundAt:
  "2 ^ (52 + e) \<le> n \<Longrightarrow> n < 2 ^ (53 + e) \<Longrightarrow> 1 \<le> e \<Longrightarrow> toDouble n = roundAt e n"
proof -
  assume lo: "2 ^ (52 + e) \<le> n" and hi: "n < 2 ^ (53 + e)" and e: "1 \<le> e"
  have "floorLog 2 n = 52 + e"
    using lo hi by (intro floorLog_unique) simp_all
  then have fe: "floorLog 2 n - 52 = e" by simp
  have "(2::nat) ^ 53 \<le> 2 ^ (52 + e)"
    using e by (intro power_increasing) simp_all
  with lo have "\<not> n < 2 ^ 53" by simp
  then show ?thesis
    by (simp add: toDouble_def fe roundAt_def Let_def)
qed

lemma roundAt_range: "n div 2 ^ e * 2 ^ e \<le> roundAt e n \<and> roundAt e n \<le> Suc (n div 2 ^ e) * 2 ^ e"
  by (simp add: roundAt_def)

lemma roundAt_multiple: "roundAt e (k * 2 ^ e) = k * 2 ^ e"
  by (simp add: roundAt_def)

lemma roundAt_lower:
  assumes "2 ^ (52 + e) \<le> n"
  shows "2 ^ (52 + e) \<le> roundAt e n"
proof -
  have "2 ^ (52 + e) div 2 ^ e \<le> n div 2 ^ e"
    using assms by (rule div_le_mono)
  then have q: "2 ^ 52 \<le> n div 2 ^ e"
    by (simp only: power_add nonzero_mult_div_cancel_right [of "2 ^ e" "2 ^ 52"]
        power_not_zero [of 2 e] zero_neq_numeral not_False_eq_True)
  have "(2::nat) ^ (52 + e) = 2 ^ 52 * 2 ^ e"
    by (rule power_add)
  also have "\<dots> \<le> n div 2 ^ e * 2 ^ e"
    using q by (rule mult_le_mono1)
  also have "\<dots> \<le> roundAt e n"
    using roundAt_range [of n e] by blast
  finally show ?thesis .
qed

lemma roundAt_upper:
  assumes "n < 2 ^ (53 + e)"
  shows "roundAt e n \<le> 2 ^ (53 + e)"
proof -
  have "n < 2 ^ 53 * 2 ^ e"
    using assms by (simp only: power_add)
  then have "n div 2 ^ e < 2 ^ 53"
    by (rule less_mult_imp_div_less)
  then have "Suc (n div 2 ^ e) \<le> 2 ^ 53"
    by (rule Suc_leI)
  then have "Suc (n div 2 ^ e) * 2 ^ e \<le> 2 ^ 53 * 2 ^ e"
    by (rule mult_le_mono1)
  also have "\<dots> = 2 ^ (53 + e)"
    by (rule power_add [symmetric])
  finally show ?thesis
    using roundAt_range [of n e] by (meson order_trans)
qed

lemma roundAt_mono: "x \<le> y \<Longrightarrow> roundAt e x \<le> roundAt e y"
proof -
  assume xy: "x \<le> y"
  let ?u = "(2::nat) ^ e"
  have q: "x div ?u \<le> y div ?u"
    using xy by (rule div_le_mono)
  show ?thesis
  proof (cases "x div ?u = y div ?u")
    case True
    have "x mod ?u \<le> y mod ?u"
    proof -
      have "x mod ?u = x - x div ?u * ?u" "y mod ?u = y - y div ?u * ?u"
        by (simp_all add: minus_div_mult_eq_mod)
      with True diff_le_mono [OF xy, of "x div ?u * ?u"] show ?thesis
        by simp
    qed
    then show ?thesis
      using True by (auto simp: roundAt_def)
  next
    case False
    with q have "Suc (x div ?u) \<le> y div ?u" by simp
    then have "Suc (x div ?u) * ?u \<le> y div ?u * ?u"
      by (rule mult_le_mono1)
    then show ?thesis
      using roundAt_range [of x e] roundAt_range [of y e] by linarith
  qed
qed

lemma toDouble_exact: "n \<le> 2 ^ 53 \<Longrightarrow> toDouble n = n"
proof (cases "n < 2 ^ 53")
  case True
  then show ?thesis by (simp add: toDouble_def)
next
  case False
  assume "n \<le> 2 ^ 53"
  with False have n: "n = 2 ^ 53" by simp
  have "toDouble n = roundAt 1 n"
    by (rule toDouble_roundAt) (simp_all add: n)
  also have "\<dots> = n"
    by (simp add: roundAt_def n)
  finally show ?thesis .
qed

lemma toDouble_mono: "x \<le> y \<Longrightarrow> toDouble x \<le> toDouble y"
proof -
  assume xy: "x \<le> y"
  show ?thesis
  proof (cases "y < 2 ^ 53")
    case True
    with xy show ?thesis by (simp add: toDouble_def)
  next
    case False
    then have y: "2 ^ 53 \<le> y" by simp
    define ey where "ey = floorLog 2 y - 52"
    have yb: "1 \<le> ey" "2 ^ (52 + ey) \<le> y" "y < 2 ^ (53 + ey)"
      using ulp_bounds [OF y] by (simp_all add: ey_def)
    have ty: "toDouble y = roundAt ey y"
      using yb by (intro toDouble_roundAt) simp_all
    have ylow: "2 ^ (52 + ey) \<le> toDouble y"
      unfolding ty using yb(2) by (rule roundAt_lower)
    show ?thesis
    proof (cases "x < 2 ^ 53")
      case True
      have "(2::nat) ^ 53 \<le> 2 ^ (52 + ey)"
        using yb(1) by (intro power_increasing) simp_all
      with True ylow show ?thesis by (simp add: toDouble_def)
    next
      case False
      then have x: "2 ^ 53 \<le> x" by simp
      define ex where "ex = floorLog 2 x - 52"
      have bx: "1 \<le> ex" "2 ^ (52 + ex) \<le> x" "x < 2 ^ (53 + ex)"
        using ulp_bounds [OF x] by (simp_all add: ex_def)
      have tx: "toDouble x = roundAt ex x"
        using bx by (intro toDouble_roundAt) simp_all
      have "(2::nat) ^ (52 + ex) < 2 ^ (53 + ey)"
        using bx(2) xy yb(3) by linarith
      then have "52 + ex < 53 + ey"
        by (rule power_less_imp_less_exp [rotated]) simp
      then have le: "ex \<le> ey" by simp
      show ?thesis
      proof (cases "ex = ey")
        case True
        then show ?thesis using tx ty roundAt_mono [OF xy] by simp
      next
        case False
        with le have lt: "Suc ex \<le> ey" by simp
        have "toDouble x \<le> 2 ^ (53 + ex)"
          unfolding tx using bx(3) by (rule roundAt_upper)
        also have "\<dots> \<le> 2 ^ (52 + ey)"
          using lt by (intro power_increasing) simp_all
        also have "\<dots> \<le> toDouble y" by (rule ylow)
        finally show ?thesis .
      qed
    qed
  qed
qed

lemma toDouble_idem: "toDouble (toDouble n) = toDouble n"
proof (cases "n < 2 ^ 53")
  case True
  then show ?thesis by (simp add: toDouble_def)
next
  case False
  then have n: "2 ^ 53 \<le> n" by simp
  define e where "e = floorLog 2 n - 52"
  have b: "1 \<le> e" "2 ^ (52 + e) \<le> n" "n < 2 ^ (53 + e)"
    using ulp_bounds [OF n] by (simp_all add: e_def)
  have t: "toDouble n = roundAt e n"
    using b by (intro toDouble_roundAt) simp_all
  define k where "k = roundAt e n div 2 ^ e"
  have "roundAt e n = n div 2 ^ e * 2 ^ e \<or> roundAt e n = Suc (n div 2 ^ e) * 2 ^ e"
    unfolding roundAt_def by (rule if_split [THEN iffD2]) blast
  then have k: "roundAt e n = k * 2 ^ e"
    unfolding k_def by (elim disjE) simp_all
  have lo: "2 ^ (52 + e) \<le> roundAt e n"
    using b(2) by (rule roundAt_lower)
  have hi: "roundAt e n \<le> 2 ^ (53 + e)"
    using b(3) by (rule roundAt_upper)
  show ?thesis
  proof (cases "roundAt e n = 2 ^ (53 + e)")
    case True
    have m: "roundAt e n = 2 ^ 52 * 2 ^ Suc e"
      unfolding True by (simp add: power_add)
    have "toDouble (roundAt e n) = roundAt (Suc e) (roundAt e n)"
      by (rule toDouble_roundAt) (simp_all add: True)
    also have "\<dots> = roundAt e n"
      unfolding m by (rule roundAt_multiple)
    finally show ?thesis by (simp add: t)
  next
    case False
    with hi have hi': "roundAt e n < 2 ^ (53 + e)" by simp
    have "toDouble (roundAt e n) = roundAt e (roundAt e n)"
      using lo hi' b(1) by (rule toDouble_roundAt)
    also have "\<dots> = roundAt e n"
      unfolding k by (rule roundAt_multiple)
    finally show ?thesis by (simp add: t)
  qed
qed

lemma toDouble_small: "toDouble (numeral k) = numeral k" if "numeral k \<le> (2::nat) ^ 53"
  using that by (rule toDouble_exact)

lemma toDouble_0: "toDouble 0 = 0"
  by (simp add: toDouble_def)

lemma toDouble_Suc_0: "toDouble (Suc 0) = Suc 0"
  by (simp add: toDouble_def)

lemma toDouble_2_53: "toDouble 9007199254740992 = 9007199254740992"
  by (rule toDouble_exact) simp

lemma toDouble_2_53_1: "toDouble 9007199254740993 = 9007199254740992"
proof -
  have "toDouble 9007199254740993 = roundAt 1 9007199254740993"
    by (rule toDouble_roundAt) simp_all
  then show ?thesis by (simp add: roundAt_def)
qed

lemma toDouble_Suc_Suc_0: "toDouble (Suc (Suc 0)) = Suc (Suc 0)"
  by (simp add: toDouble_def)

lemmas toDouble_values =
  toDouble_small toDouble_0 toDouble_Suc_0 toDouble_Suc_Suc_0 toDouble_2_53 toDouble_2_53_1

section \<open>The walk, node by node\<close>

lemma processDirectory_Missing: "processDirectory cb p Missing w = w"
  by (simp add: processDirectory.simps)

lemma processDirectory_Symlink:
  "processDirectory cb p (Symlink t) w = processDirectory cb p t w"
  by (simp add: processDirectory.simps [of cb p "Symlink t"] processDirectory.simps [of cb p t]
      split: sum.splits)

lemma processDirectory_Dir:
  "processDirectory cb p (Dir es) w =
     fold (\<lambda>(file, child). processDirectory cb (join p file) child) es w"
  by (simp add: processDirectory.simps [of cb p "Dir es"])

lemma processDirectory_StatFails:
  "processDirectory cb p (StatFails e) w = w\<lparr>console := console w @ [p]\<rparr>"
  by (simp add: processDirectory.simps)

lemma processDirectory_DirUnreadable:
  "processDirectory cb p (DirUnreadable e) w = w\<lparr>console := console w @ [p]\<rparr>"
  by (simp add: processDirectory.simps)

lemma processDirectory_Other: "processDirectory cb p Other w = w"
  by (simp add: processDirectory.simps)

lemma addAll_Nil: "addAll a [] = a"
  by (simp add: addAll_def)

lemma addAll_Cons: "addAll a (x # xs) = addAll (jsAdd a x) xs"
  by (simp add: addAll_def)

lemma addAll_append: "addAll a (xs @ ys) = addAll (addAll a xs) ys"
  by (simp add: addAll_def)

lemma progressList_append:
  "progressList ts ic (fs @ gs) =
     progressList ts ic fs @
     progressList (addAll ts (map f_size fs)) (addAll ic (map (\<lambda>f. 1) fs)) gs"
  by (induction fs arbitrary: ts ic) (simp_all add: addAll_Nil addAll_Cons)

lemma emit_append: "emit cb (ps @ qs) s = emit cb qs (emit cb ps s)"
  by (simp add: emit_def split: option.splits)

lemma walked_Nil: "walked cb [] [] w = w"
  by (simp add: walked_def emit_def addAll_Nil split: option.splits)

lemma walked_walked:
  "walked cb gs errs' (walked cb fs errs w) = walked cb (fs @ gs) (errs @ errs') w"
  by (simp add: walked_def progressList_append emit_append addAll_append)

lemma processDirectory_File:
  "processDirectory cb p (File n) w =
     walked cb [\<lparr>f_path = p, f_size = toDouble n, f_name = basename p\<rparr>] [] w"
  by (simp add: processDirectory.simps walked_def emit_def Let_def addAll_Nil addAll_Cons
      split: option.splits)

lemma fold_walked:
  assumes "\<And>child q v. child \<in> snd ` set es \<Longrightarrow>
     processDirectory cb q child v = walked cb (visited q child) (faults q child) v"
  shows "fold (\<lambda>(file, child). processDirectory cb (join p file) child) es w =
     walked cb (concat (map (\<lambda>(file, child). visited (join p file) child) es))
       (concat (map (\<lambda>(file, child). faults (join p file) child) es)) w"
  using assms
proof (induction es arbitrary: w)
  case Nil
  show ?case by (simp add: walked_Nil)
next
  case (Cons a es)
  obtain nm c where a: "a = (nm, c)" by (cases a)
  have step: "processDirectory cb (join p nm) c w =
      walked cb (visited (join p nm) c) (faults (join p nm) c) w"
    by (rule Cons.prems) (simp add: a)
  have rest: "\<And>w'. fold (\<lambda>(file, child). processDirectory cb (join p file) child) es w' =
     walked cb (concat (map (\<lambda>(file, child). visited (join p file) child) es))
       (concat (map (\<lambda>(file, child). faults (join p file) child) es)) w'"
    by (rule Cons.IH) (rule Cons.prems, simp)
  show ?case by (simp add: a step rest walked_walked)
qed

lemma processDirectory_walked:
  "processDirectory cb p n w = walked cb (visited p n) (faults p n) w"
proof (induction n arbitrary: p w)
  case (Dir es)
  have "\<And>child q v. child \<in> snd ` set es \<Longrightarrow>
     processDirectory cb q child v = walked cb (visited q child) (faults q child) v"
    using Dir.IH by fastforce
  then show ?case by (simp add: processDirectory_Dir fold_walked)
qed (simp_all add: processDirectory_Missing processDirectory_StatFails processDirectory_File
      processDirectory_DirUnreadable processDirectory_Other processDirectory_Symlink
      walked_Nil, simp_all add: walked_def emit_def addAll_Nil split: option.splits)

lemma getDirectorySize_walked:
  "getDirectorySize root dirPath cb s =
     (\<lparr>r_size = addAll 0 (map f_size (visited dirPath root)),
       r_items = addAll 0 (map (\<lambda>f. 1) (visited dirPath root)),
       r_files = visited dirPath root\<rparr>,
      emit cb (progressList 0 0 (visited dirPath root)) s,
      faults dirPath root)"
  by (simp add: getDirectorySize_def processDirectory_walked walked_def)

lemma jsAdd_exact: "a + b \<le> 2 ^ 53 \<Longrightarrow> jsAdd a b = a + b"
  by (simp add: jsAdd_def toDouble_exact)

lemma addAll_exact: "a + sum_list xs \<le> 2 ^ 53 \<Longrightarrow> addAll a xs = a + sum_list xs"
proof (induction xs arbitrary: a)
  case Nil
  show ?case by (simp add: addAll_Nil)
next
  case (Cons x xs)
  from Cons.prems have 1: "a + x \<le> 2 ^ 53" and 2: "(a + x) + sum_list xs \<le> 2 ^ 53"
    by simp_all
  show ?case
    by (simp add: addAll_Cons jsAdd_exact [OF 1] Cons.IH [OF 2])
qed

lemma addAll_count: "a + length fs \<le> 2 ^ 53 \<Longrightarrow> addAll a (map (\<lambda>f. 1) fs) = a + length fs"
  using addAll_exact [of a "map (\<lambda>f. 1) fs"] by (simp add: sum_list_triv)

lemma map_toDouble_exact: "sum_list xs \<le> 2 ^ 53 \<Longrightarrow> map toDouble xs = xs"
proof -
  assume b: "sum_list xs \<le> 2 ^ 53"
  have "\<And>x. x \<in> set xs \<Longrightarrow> toDouble x = x"
  proof -
    fix x assume "x \<in> set xs"
    then have "x \<le> sum_list xs" by (simp add: member_le_sum_list)
    with b have "x \<le> 2 ^ 53" by (rule order_trans [rotated])
    then show "toDouble x = x" by (rule toDouble_exact)
  qed
  then show ?thesis by (simp add: map_idI)
qed

lemma visited_sizes: "map f_size (visited p n) = map toDouble (regularFileSizes True n)"
proof (induction n arbitrary: p)
  case (Dir es)
  have eq: "map (\<lambda>x. map f_size (case x of (file, child) \<Rightarrow> visited (join p file) child)) es =
      map (\<lambda>x. map toDouble (case x of (file, child) \<Rightarrow> regularFileSizes True child)) es"
    by (rule map_cong) (use Dir.IH in fastforce)+
  have "map f_size (visited p (Dir es)) =
      concat (map (\<lambda>x. map f_size (case x of (file, child) \<Rightarrow> visited (join p file) child)) es)"
    by (simp add: map_concat comp_def)
  also have "\<dots> = concat (map (\<lambda>x. map toDouble
      (case x of (file, child) \<Rightarrow> regularFileSizes True child)) es)"
    by (simp only: eq)
  also have "\<dots> = map toDouble (regularFileSizes True (Dir es))"
    by (simp add: map_concat comp_def)
  finally show ?case .
qed simp_all

lemma visited_length: "length (visited p n) = length (regularFileSizes True n)"
  using visited_sizes [of p n] by (metis length_map)

lemma accessFails_walk: "accessFails x \<Longrightarrow> visited q x = [] \<and> faults q x = [q]"
  by (induction x arbitrary: q) (auto simp: accessFails_def split: sum.splits if_splits)

section \<open>The scan, category by category\<close>

lemma fold_callback:
  "fold (\<lambda>x s. case pc of None \<Rightarrow> s | Some f \<Rightarrow> f (g x) s) xs s = emit pc (map g xs) s"
  by (induction xs arbitrary: s) (simp_all add: emit_def split: option.splits)

lemma scanCategory_closed:
  "scanCategory pc homedir disk c st =
     \<lparr>res = addCategory homedir disk c (res st),
      out = emit pc (categoryEvents homedir disk c (res st)) (out st),
      err = err st @ faults (SAFARI_PATHS homedir c) (disk (SAFARI_PATHS homedir c))\<rparr>"
proof -
  have ev: "emit pc (categoryEvents homedir disk c (res st)) (out st) =
      emit pc (fileEvents c (total (res st)) (categoryFiles homedir disk c))
        (case pc of None \<Rightarrow> out st
         | Some f \<Rightarrow> f (Started c (''Scanning '' @ s_category (byCategory (res st) c) @ ''...'')
                          (total (res st))) (out st))"
    by (simp add: categoryEvents_def emit_def split: option.splits)
  show ?thesis
    unfolding ev
    by (simp add: scanCategory_def getDirectorySize_walked Let_def addCategory_def
        categoryFiles_def fileEvents_def emit_def [of "Some _"] fold_callback)
qed

lemma scan_loop:
  "res (fold (scanCategory pc homedir disk) cs st) =
     fold (addCategory homedir disk) cs (res st) \<and>
   out (fold (scanCategory pc homedir disk) cs st) =
     emit pc (scanEvents homedir disk (res st) cs) (out st)"
proof (induction cs arbitrary: st)
  case Nil
  show ?case by (simp add: emit_def split: option.splits)
next
  case (Cons c cs)
  show ?case
    using Cons.IH [of "scanCategory pc homedir disk c st"]
    by (simp add: scanCategory_closed emit_append)
qed

lemma res_scan:
  "res (scanSafariStorage pc homedir disk s) =
     fold (addCategory homedir disk) categories initialResults"
  using scan_loop [of pc homedir disk categories "\<lparr>res = initialResults, out = s, err = []\<rparr>"]
  by (simp add: scanSafariStorage_def)

lemma out_scan:
  "out (scanSafariStorage pc homedir disk s) =
     emit pc (scanEvents homedir disk initialResults categories) s"
  using scan_loop [of pc homedir disk categories "\<lparr>res = initialResults, out = s, err = []\<rparr>"]
  by (simp add: scanSafariStorage_def)

lemma fold_recordEvent: "fold recordEvent es log = log @ es"
  by (induction es arbitrary: log) (simp_all add: recordEvent_def)

lemma recorded_scan:
  "out (scanSafariStorage (Some recordEvent) homedir disk []) =
     scanEvents homedir disk initialResults categories"
  by (simp add: out_scan emit_def fold_recordEvent)

lemma categoryResult_walked:
  "categoryResult homedir disk c =
     \<lparr>r_size = addAll 0 (map f_size (categoryFiles homedir disk c)),
      r_items = addAll 0 (map (\<lambda>f. 1) (categoryFiles homedir disk c)),
      r_files = categoryFiles homedir disk c\<rparr>"
  by (simp add: categoryResult_def getDirectorySize_walked categoryFiles_def)

section \<open>Running totals never decrease\<close>

lemma jsAdd_double: "toDouble (jsAdd a b) = jsAdd a b"
  by (simp add: jsAdd_def toDouble_idem)

lemma jsAdd_ge: "toDouble a = a \<Longrightarrow> a \<le> jsAdd a b"
proof -
  assume a: "toDouble a = a"
  have "toDouble a \<le> toDouble (a + b)"
    by (rule toDouble_mono) simp
  then show ?thesis by (simp add: jsAdd_def a)
qed

lemma jsAdd_mono: "b \<le> c \<Longrightarrow> jsAdd a b \<le> jsAdd a c"
  unfolding jsAdd_def by (rule toDouble_mono) simp

lemma addAll_double: "toDouble a = a \<Longrightarrow> toDouble (addAll a xs) = addAll a xs"
  by (induction xs arbitrary: a) (simp_all add: addAll_Nil addAll_Cons jsAdd_double)

lemma addAll_ge: "toDouble a = a \<Longrightarrow> a \<le> addAll a xs"
proof (induction xs arbitrary: a)
  case Nil
  show ?case by (simp add: addAll_Nil)
next
  case (Cons x xs)
  have "a \<le> jsAdd a x"
    using Cons.prems by (rule jsAdd_ge)
  also have "\<dots> \<le> addAll (jsAdd a x) xs"
    by (rule Cons.IH) (rule jsAdd_double)
  finally show ?case by (simp add: addAll_Cons)
qed

lemma progressList_length: "length (progressList ts ic fs) = length fs"
  by (induction fs arbitrary: ts ic) simp_all

lemma progressList_bounds:
  "toDouble ts = ts \<Longrightarrow> toDouble ic = ic \<Longrightarrow> pr \<in> set (progressList ts ic fs) \<Longrightarrow>
     ts \<le> p_totalSize pr \<and> p_totalSize pr \<le> addAll ts (map f_size fs) \<and>
     ic \<le> p_itemCount pr \<and> p_itemCount pr \<le> addAll ic (map (\<lambda>f. 1) fs)"
proof (induction fs arbitrary: ts ic)
  case Nil
  then show ?case by simp
next
  case (Cons f fs)
  let ?ts = "jsAdd ts (f_size f)" and ?ic = "jsAdd ic 1"
  have d: "toDouble ?ts = ?ts" "toDouble ?ic = ?ic"
    by (rule jsAdd_double)+
  have up: "ts \<le> ?ts" "ic \<le> ?ic"
    using Cons.prems(1,2) by (simp_all add: jsAdd_ge)
  have fin: "?ts \<le> addAll ?ts (map f_size fs)" "?ic \<le> addAll ?ic (map (\<lambda>f. 1) fs)"
    using d by (simp_all add: addAll_ge)
  from Cons.prems(3) consider
      "pr = \<lparr>currentFile = f_name f, p_totalSize = ?ts, p_itemCount = ?ic, inProgress = True\<rparr>"
    | "pr \<in> set (progressList ?ts ?ic fs)"
    by auto
  then show ?case
  proof cases
    case 1
    with up fin show ?thesis by (simp add: addAll_Cons)
  next
    case 2
    from Cons.IH [OF d 2] up show ?thesis by (simp add: addAll_Cons)
  qed
qed

lemma progressList_sorted:
  "sorted (map p_totalSize (progressList ts ic fs)) \<and>
   sorted (map p_itemCount (progressList ts ic fs))"
proof (induction fs arbitrary: ts ic)
  case Nil
  show ?case by simp
next
  case (Cons f fs)
  let ?ts = "jsAdd ts (f_size f)" and ?ic = "jsAdd ic 1"
  have d: "toDouble ?ts = ?ts" "toDouble ?ic = ?ic"
    by (rule jsAdd_double)+
  have "\<And>pr. pr \<in> set (progressList ?ts ?ic fs) \<Longrightarrow>
      ?ts \<le> p_totalSize pr \<and> ?ic \<le> p_itemCount pr"
    using progressList_bounds [OF d] by blast
  with Cons.IH [of ?ts ?ic] show ?case by auto
qed

lemma categoryProgress_append:
  "categoryProgress c (xs @ ys) = categoryProgress c xs @ categoryProgress c ys"
  by (induction c xs rule: categoryProgress.induct) simp_all

lemma categoryProgress_Found:
  "categoryProgress c (map (\<lambda>pr. Found d (m pr) (p_totalSize pr) (p_itemCount pr) (g pr)) ps) =
     (if d = c then map (\<lambda>pr. (p_totalSize pr, p_itemCount pr)) ps else [])"
  by (induction ps) auto

lemma categoryProgress_fileEvents:
  "categoryProgress c (fileEvents d t fs) =
     (if d = c then map (\<lambda>pr. (p_totalSize pr, p_itemCount pr)) (progressList 0 0 fs) else [])"
  unfolding fileEvents_def categoryProgress_Found by simp

lemma categoryProgress_scanEvents:
  "distinct cs \<Longrightarrow>
   categoryProgress c (scanEvents homedir disk r cs) =
     (if c \<in> set cs
      then map (\<lambda>pr. (p_totalSize pr, p_itemCount pr))
             (progressList 0 0 (categoryFiles homedir disk c))
      else [])"
  by (induction cs arbitrary: r)
     (auto simp: categoryEvents_def categoryProgress_append categoryProgress_fileEvents)

lemma scanningOf_fileEvents: "map scanningOf (fileEvents c t fs) = replicate (length fs) c"
  by (simp add: fileEvents_def comp_def map_replicate_const progressList_length)

lemma remdups_adj_block: "remdups_adj (c # replicate n c @ xs) = remdups_adj (c # xs)"
  by (induction n) simp_all

lemma remdups_adj_Cons_cong:
  "remdups_adj xs = remdups_adj ys \<Longrightarrow> remdups_adj (c # xs) = remdups_adj (c # ys)"
proof (cases xs)
  case Nil
  assume "remdups_adj xs = remdups_adj ys"
  with Nil have "remdups_adj ys = []" by simp
  then have "ys = []" by simp
  with Nil show ?thesis by simp
next
  case (Cons a as)
  assume eq: "remdups_adj xs = remdups_adj ys"
  with Cons obtain b bs where ys: "ys = b # bs" by (cases ys) auto
  have "hd (remdups_adj xs) = hd (remdups_adj ys)" using eq by simp
  then have "a = b" using Cons ys by simp
  then show ?thesis using eq Cons ys by simp
qed

lemma scanningOf_scanEvents:
  "remdups_adj (map scanningOf (scanEvents homedir disk r cs)) = remdups_adj cs"
proof (induction cs arbitrary: r)
  case Nil
  show ?case by simp
next
  case (Cons c cs)
  have "remdups_adj (map scanningOf (scanEvents homedir disk r (c # cs))) =
      remdups_adj (c # map scanningOf (scanEvents homedir disk (addCategory homedir disk c r) cs))"
    by (simp add: categoryEvents_def scanningOf_fileEvents remdups_adj_block del: remdups_adj.simps)
  also have "\<dots> = remdups_adj (c # cs)"
    by (rule remdups_adj_Cons_cong) (rule Cons.IH)
  finally show ?case .
qed

lemma grandTotal_fileEvents:
  assumes "toDouble (t_size t) = t_size t" and "toDouble (t_items t) = t_items t"
    and "e \<in> set (fileEvents c t fs)"
  shows "t_size t \<le> t_size (grandTotal e) \<and>
     t_size (grandTotal e) \<le> jsAdd (t_size t) (addAll 0 (map f_size fs)) \<and>
     t_items t \<le> t_items (grandTotal e) \<and>
     t_items (grandTotal e) \<le> jsAdd (t_items t) (addAll 0 (map (\<lambda>f. 1) fs))"
proof -
  from assms(3) obtain pr where pr: "pr \<in> set (progressList 0 0 fs)"
    and e: "e = Found c (''Found: '' @ currentFile pr) (p_totalSize pr) (p_itemCount pr)
                 \<lparr>t_size = jsAdd (t_size t) (p_totalSize pr),
                  t_items = jsAdd (t_items t) (p_itemCount pr)\<rparr>"
    by (auto simp: fileEvents_def)
  have b: "p_totalSize pr \<le> addAll 0 (map f_size fs)"
      "p_itemCount pr \<le> addAll 0 (map (\<lambda>f. 1) fs)"
    using progressList_bounds [OF toDouble_0 toDouble_0 pr] by simp_all
  show ?thesis
    unfolding e using assms(1,2) b by (simp add: jsAdd_ge jsAdd_mono)
qed

lemma sorted_map_jsAdd: "sorted xs \<Longrightarrow> sorted (map (jsAdd k) xs)"
  by (simp add: sorted_iff_nth_mono jsAdd_mono)

lemma grandTotal_fileEvents_sorted:
  "sorted (map (\<lambda>e. t_size (grandTotal e)) (fileEvents c t fs)) \<and>
   sorted (map (\<lambda>e. t_items (grandTotal e)) (fileEvents c t fs))"
proof -
  have e1: "map (\<lambda>e. t_size (grandTotal e)) (fileEvents c t fs) =
      map (jsAdd (t_size t)) (map p_totalSize (progressList 0 0 fs))"
    by (simp add: fileEvents_def comp_def)
  have e2: "map (\<lambda>e. t_items (grandTotal e)) (fileEvents c t fs) =
      map (jsAdd (t_items t)) (map p_itemCount (progressList 0 0 fs))"
    by (simp add: fileEvents_def comp_def)
  have s1: "sorted (map p_totalSize (progressList 0 0 fs))"
    and s2: "sorted (map p_itemCount (progressList 0 0 fs))"
    using progressList_sorted [of 0 0 fs] by simp_all
  show ?thesis
    unfolding e1 e2 using sorted_map_jsAdd [OF s1] sorted_map_jsAdd [OF s2] by blast
qed

lemma grandTotal_scanEvents:
  assumes "toDouble (t_size (total r)) = t_size (total r)"
    and "toDouble (t_items (total r)) = t_items (total r)"
  shows "sorted (map (\<lambda>e. t_size (grandTotal e)) (scanEvents homedir disk r cs)) \<and>
   sorted (map (\<lambda>e. t_items (grandTotal e)) (scanEvents homedir disk r cs)) \<and>
   (\<forall>e \<in> set (scanEvents homedir disk r cs).
      t_size (total r) \<le> t_size (grandTotal e) \<and> t_items (total r) \<le> t_items (grandTotal e))"
  using assms
proof (induction cs arbitrary: r)
  case Nil
  show ?case by simp
next
  case (Cons c cs)
  let ?fs = "categoryFiles homedir disk c"
  let ?r' = "addCategory homedir disk c r"
  have tot: "t_size (total ?r') = jsAdd (t_size (total r)) (addAll 0 (map f_size ?fs))"
      "t_items (total ?r') = jsAdd (t_items (total r)) (addAll 0 (map (\<lambda>f. 1) ?fs))"
    by (simp_all add: addCategory_def)
  have d': "toDouble (t_size (total ?r')) = t_size (total ?r')"
      "toDouble (t_items (total ?r')) = t_items (total ?r')"
    by (simp_all add: tot jsAdd_double)
  have blk: "\<And>e. e \<in> set (categoryEvents homedir disk c r) \<Longrightarrow>
      t_size (total r) \<le> t_size (grandTotal e) \<and> t_size (grandTotal e) \<le> t_size (total ?r') \<and>
      t_items (total r) \<le> t_items (grandTotal e) \<and> t_items (grandTotal e) \<le> t_items (total ?r')"
    using grandTotal_fileEvents [OF Cons.prems, of _ c ?fs] Cons.prems
    by (auto simp: categoryEvents_def tot jsAdd_ge)
  have blk_sorted: "sorted (map (\<lambda>e. t_size (grandTotal e)) (categoryEvents homedir disk c r)) \<and>
      sorted (map (\<lambda>e. t_items (grandTotal e)) (categoryEvents homedir disk c r))"
    using grandTotal_fileEvents_sorted [of c "total r" ?fs]
      grandTotal_fileEvents [OF Cons.prems, of _ c ?fs]
    by (auto simp: categoryEvents_def)
  have rest: "\<And>e. e \<in> set (scanEvents homedir disk ?r' cs) \<Longrightarrow>
      t_size (total ?r') \<le> t_size (grandTotal e) \<and> t_items (total ?r') \<le> t_items (grandTotal e)"
    using Cons.IH [OF d'] by blast
  have le: "t_size (total r) \<le> t_size (total ?r')" "t_items (total r) \<le> t_items (total ?r')"
    using Cons.prems by (simp_all add: tot jsAdd_ge)
  have cross: "\<And>e e'. e \<in> set (categoryEvents homedir disk c r) \<Longrightarrow>
      e' \<in> set (scanEvents homedir disk ?r' cs) \<Longrightarrow>
      t_size (grandTotal e) \<le> t_size (grandTotal e') \<and>
      t_items (grandTotal e) \<le> t_items (grandTotal e')"
    using blk rest by (meson order_trans)
  have lower: "\<And>e. e \<in> set (scanEvents homedir disk ?r' cs) \<Longrightarrow>
      t_size (total r) \<le> t_size (grandTotal e) \<and> t_items (total r) \<le> t_items (grandTotal e)"
    using rest le by (meson order_trans)
  have "sorted (map (\<lambda>e. t_size (grandTotal e)) (scanEvents homedir disk r (c # cs)))"
    using Cons.IH [OF d'] blk_sorted cross by (simp add: sorted_append)
  moreover have "sorted (map (\<lambda>e. t_items (grandTotal e)) (scanEvents homedir disk r (c # cs)))"
    using Cons.IH [OF d'] blk_sorted cross by (simp add: sorted_append)
  moreover have "\<forall>e \<in> set (scanEvents homedir disk r (c # cs)).
      t_size (total r) \<le> t_size (grandTotal e) \<and> t_items (total r) \<le> t_items (grandTotal e)"
    using blk lower by auto
  ultimately show ?case by blast
qed

section \<open>Totals within the exact range\<close>

lemma jsAdd5:
  "a + b + c + d + e \<le> 2 ^ 53 \<Longrightarrow>
     jsAdd (jsAdd (jsAdd (jsAdd (jsAdd 0 a) b) c) d) e = a + b + c + d + e"
proof -
  assume h: "a + b + c + d + e \<le> 2 ^ 53"
  then have 1: "0 + a \<le> 2 ^ 53" and 2: "a + b \<le> 2 ^ 53" and 3: "a + b + c \<le> 2 ^ 53"
    and 4: "a + b + c + d \<le> 2 ^ 53"
    by simp_all
  show ?thesis
    using jsAdd_exact [OF 1] jsAdd_exact [OF 2] jsAdd_exact [OF 3] jsAdd_exact [OF 4]
      jsAdd_exact [OF h]
    by simp
qed

lemma upt_shift: "[Suc 0..<Suc (Suc n)] = Suc 0 # map Suc [Suc 0..<Suc n]"
  by (subst upt_conv_Cons) (simp_all add: map_Suc_upt del: upt_Suc)

lemma runningTotals_Cons:
  "runningTotals (x # xs) = (x, 1) # map (\<lambda>(a, b). (x + a, Suc b)) (runningTotals xs)"
  by (simp add: runningTotals_def upt_shift comp_def del: upt_Suc)

lemma progressList_exact:
  "ts + sum_list (map f_size fs) \<le> 2 ^ 53 \<Longrightarrow> ic + length fs \<le> 2 ^ 53 \<Longrightarrow>
   map (\<lambda>pr. (p_totalSize pr, p_itemCount pr)) (progressList ts ic fs) =
     map (\<lambda>(a, b). (ts + a, ic + b)) (runningTotals (map f_size fs))"
proof (induction fs arbitrary: ts ic)
  case Nil
  show ?case by (simp add: runningTotals_def)
next
  case (Cons f fs)
  from Cons.prems have 1: "ts + f_size f \<le> 2 ^ 53" and 2: "ic + 1 \<le> 2 ^ 53"
    and 3: "(ts + f_size f) + sum_list (map f_size fs) \<le> 2 ^ 53"
    and 4: "(ic + 1) + length fs \<le> 2 ^ 53"
    by simp_all
  show ?case
    using Cons.IH [OF 3 4] jsAdd_exact [OF 1] jsAdd_exact [OF 2]
    by (simp add: runningTotals_Cons comp_def case_prod_unfold add.assoc)
qed

lemma category_exact:
  assumes "sum_list (regularFileSizes True (disk (SAFARI_PATHS homedir c))) \<le> 2 ^ 53"
    and "length (regularFileSizes True (disk (SAFARI_PATHS homedir c))) \<le> 2 ^ 53"
  shows "map f_size (categoryFiles homedir disk c) =
      regularFileSizes True (disk (SAFARI_PATHS homedir c))"
    and "length (categoryFiles homedir disk c) =
      length (regularFileSizes True (disk (SAFARI_PATHS homedir c)))"
    and "addAll 0 (map f_size (categoryFiles homedir disk c)) =
      sum_list (regularFileSizes True (disk (SAFARI_PATHS homedir c)))"
    and "addAll 0 (map (\<lambda>f. 1) (categoryFiles homedir disk c)) =
      length (regularFileSizes True (disk (SAFARI_PATHS homedir c)))"
proof -
  show sz: "map f_size (categoryFiles homedir disk c) =
      regularFileSizes True (disk (SAFARI_PATHS homedir c))"
    by (simp add: categoryFiles_def visited_sizes map_toDouble_exact [OF assms(1)])
  show len: "length (categoryFiles homedir disk c) =
      length (regularFileSizes True (disk (SAFARI_PATHS homedir c)))"
    by (simp add: categoryFiles_def visited_length)
  show "addAll 0 (map f_size (categoryFiles homedir disk c)) =
      sum_list (regularFileSizes True (disk (SAFARI_PATHS homedir c)))"
    unfolding sz
    using addAll_exact [of 0 "regularFileSizes True (disk (SAFARI_PATHS homedir c))"] assms(1)
    by simp
  show "addAll 0 (map (\<lambda>f. 1) (categoryFiles homedir disk c)) =
      length (regularFileSizes True (disk (SAFARI_PATHS homedir c)))"
    using addAll_count [of 0 "categoryFiles homedir disk c"] assms(2) by (simp add: len)
qed

lemma categoryEvents_exact:
  assumes cb: "completedBefore homedir disk c = total r"
    and sz: "t_size (total r) + addAll 0 (map f_size (categoryFiles homedir disk c)) \<le> 2 ^ 53"
    and it: "t_items (total r) + addAll 0 (map (\<lambda>f. 1) (categoryFiles homedir disk c)) \<le> 2 ^ 53"
  shows "list_all (\<lambda>e. case e of
       Started d m cur \<Rightarrow> cur = completedBefore homedir disk d
     | Found d m sz n tot \<Rightarrow>
         tot = \<lparr>t_size = t_size (completedBefore homedir disk d) + sz,
                t_items = t_items (completedBefore homedir disk d) + n\<rparr>)
     (categoryEvents homedir disk c r)"
proof -
  let ?fs = "categoryFiles homedir disk c"
  have "\<And>pr. pr \<in> set (progressList 0 0 ?fs) \<Longrightarrow>
      jsAdd (t_size (total r)) (p_totalSize pr) = t_size (total r) + p_totalSize pr \<and>
      jsAdd (t_items (total r)) (p_itemCount pr) = t_items (total r) + p_itemCount pr"
  proof -
    fix pr assume "pr \<in> set (progressList 0 0 ?fs)"
    then have "p_totalSize pr \<le> addAll 0 (map f_size ?fs)"
        "p_itemCount pr \<le> addAll 0 (map (\<lambda>f. 1) ?fs)"
      using progressList_bounds [OF toDouble_0 toDouble_0] by blast+
    with sz it have "t_size (total r) + p_totalSize pr \<le> 2 ^ 53"
        "t_items (total r) + p_itemCount pr \<le> 2 ^ 53"
      by simp_all
    then show "jsAdd (t_size (total r)) (p_totalSize pr) = t_size (total r) + p_totalSize pr \<and>
        jsAdd (t_items (total r)) (p_itemCount pr) = t_items (total r) + p_itemCount pr"
      by (simp add: jsAdd_exact)
  qed
  then show ?thesis
    by (simp add: categoryEvents_def fileEvents_def list_all_iff cb)
qed

lemma addCategory_total_exact:
  assumes "t_size (total r) + addAll 0 (map f_size (categoryFiles homedir disk c)) \<le> 2 ^ 53"
    and "t_items (total r) + addAll 0 (map (\<lambda>f. 1) (categoryFiles homedir disk c)) \<le> 2 ^ 53"
  shows "total (addCategory homedir disk c r) =
      \<lparr>t_size = t_size (total r) + r_size (categoryResult homedir disk c),
       t_items = t_items (total r) + r_items (categoryResult homedir disk c)\<rparr>"
  using jsAdd_exact [OF assms(1)] jsAdd_exact [OF assms(2)]
  by (simp add: addCategory_def categoryResult_walked)

section \<open>formatBytes: unit, rounding and printing\<close>

lemma floorLog_small: "0 < n \<Longrightarrow> n < 1024 ^ 4 \<Longrightarrow> floorLog 1024 n < 4"
proof -
  assume "0 < n" and "n < 1024 ^ 4"
  then have "(1024::nat) ^ floorLog 1024 n < 1024 ^ 4"
    using floorLog_bounds [of 1024 n] by simp
  then show ?thesis
    by (rule power_less_imp_less_exp [rotated]) simp
qed

lemma floorLog_large: "1024 ^ 4 \<le> n \<Longrightarrow> 4 \<le> floorLog 1024 n"
proof -
  assume a: "1024 ^ 4 \<le> n"
  then have "0 < n" by (simp add: Suc_le_eq [symmetric] del: One_nat_def) 
  then have "n < 1024 ^ Suc (floorLog 1024 n)"
    using floorLog_bounds [of 1024 n] by simp
  with a have "(1024::nat) ^ 4 < 1024 ^ Suc (floorLog 1024 n)"
    by (rule le_less_trans)
  then have "4 < Suc (floorLog 1024 n)"
    by (rule power_less_imp_less_exp [rotated]) simp
  then show ?thesis by simp
qed

lemma toFixed2_nearest:
  "0 < d \<Longrightarrow>
     2 * toFixed2 bytes d * d \<le> 200 * bytes + d \<and> 200 * bytes < 2 * toFixed2 bytes d * d + d"
proof -
  assume d: "0 < d"
  let ?a = "200 * bytes + d"
  have "?a div (2 * d) * (2 * d) \<le> ?a"
    by (rule div_times_less_eq_dividend)
  moreover have "?a < Suc (?a div (2 * d)) * (2 * d)"
    using d dividend_less_div_times [of "2 * d" ?a] by simp
  ultimately show ?thesis
    by (simp add: toFixed2_def algebra_simps)
qed

lemma digit_nonzero: "n mod 10 \<noteq> 0 \<Longrightarrow> digit n \<noteq> CHR ''0''"
proof -
  assume nz: "n mod 10 \<noteq> 0"
  define m where "m = n mod 10"
  have "m < 10" and "m \<noteq> 0"
    using nz by (simp_all add: m_def)
  then have "m = 1 \<or> m = 2 \<or> m = 3 \<or> m = 4 \<or> m = 5 \<or> m = 6 \<or> m = 7 \<or> m = 8 \<or> m = 9"
    by arith
  then have "''0123456789'' ! m \<noteq> CHR ''0''"
    by (elim disjE) simp_all
  then show ?thesis
    by (simp add: digit_def m_def)
qed

lemma numberToString_shape:
  "(if h mod 100 = 0 then numberToString h = showNat (h div 100)
    else last (numberToString h) \<noteq> CHR ''0'' \<and>
         (numberToString h = showNat (h div 100) @ [CHR ''.'', digit (h div 10)] \<or>
          numberToString h = showNat (h div 100) @ [CHR ''.'', digit (h div 10), digit h]))"
proof (cases "h mod 100 = 0")
  case True
  then show ?thesis by (simp add: numberToString_def)
next
  case False
  show ?thesis
  proof (cases "h mod 10 = 0")
    case True
    have "(h div 10) mod 10 \<noteq> 0"
    proof
      assume "(h div 10) mod 10 = 0"
      with True have "h mod 100 = 0"
        by presburger
      with False show False by simp
    qed
    then have "digit (h div 10) \<noteq> CHR ''0''"
      by (rule digit_nonzero)
    with False True show ?thesis by (simp add: numberToString_def)
  next
    case nz: False
    then have "digit h \<noteq> CHR ''0''"
      by (rule digit_nonzero)
    with False nz show ?thesis by (simp add: numberToString_def)
  qed
qed

lemma formatBytes_pos:
  "0 < bytes \<Longrightarrow>
   formatBytes bytes =
     numberToString (toFixed2 bytes (1024 ^ floorLog 1024 bytes)) @ '' '' @
     (if floorLog 1024 bytes < 4 then sizes ! floorLog 1024 bytes else ''undefined'')"
  by (simp add: formatBytes_def Let_def sizes_def)

lemma floorLog_1536: "floorLog 1024 1536 = 1"
  by (simp add: floorLog.simps)

lemma floorLog_GB: "floorLog 1024 1073741824 = 3"
  by (simp add: floorLog.simps)

lemma floorLog_TB: "floorLog 1024 1099511627776 = 4"
  by (simp add: floorLog.simps)

lemma numberToString_150: "numberToString 150 = ''1.5''"
  by (simp add: numberToString_def showNat.simps digit_def)

lemma numberToString_100: "numberToString 100 = ''1''"
  by (simp add: numberToString_def showNat.simps digit_def)

lemma formatBytes_1536: "formatBytes 1536 = ''1.5 KB''"
  by (simp add: formatBytes_pos floorLog_1536 toFixed2_def numberToString_150 sizes_def)

lemma formatBytes_GB: "formatBytes 1073741824 = ''1 GB''"
  by (simp add: formatBytes_pos floorLog_GB toFixed2_def numberToString_100 sizes_def)

lemma formatBytes_TB: "formatBytes 1099511627776 = ''1 undefined''"
  by (simp add: formatBytes_pos floorLog_TB toFixed2_def numberToString_100)

section \<open>Claims about getDirectorySize\<close>

text \<open>C1, as the specification states it, fails twice. The measure that leaves symbolic
  links out gives 0 bytes and 0 files for a directory holding one link to a file of 5
  bytes, and \<^verbatim>\<open>getDirectorySize\<close> reports 5 bytes and 1 file, because \<^verbatim>\<open>statSync\<close> resolves
  the link. And the sum is not exact without a bound: for a file of \<open>2^53\<close> bytes followed
  by a file of 1 byte, \<open>2^53 + 1\<close> bytes together, the code returns \<open>2^53\<close>, the nearest
  double.\<close>

theorem getDirectorySize_symlink_counted:
  "r_size (fst (getDirectorySize (Dir [(''link'', Symlink (File 5))]) [''T''] None ())) = 5 \<and>
   r_items (fst (getDirectorySize (Dir [(''link'', Symlink (File 5))]) [''T''] None ())) = 1 \<and>
   sum_list (regularFileSizes False (Dir [(''link'', Symlink (File 5))])) = 0 \<and>
   length (regularFileSizes False (Dir [(''link'', Symlink (File 5))])) = 0 \<and>
   r_size (fst (getDirectorySize
     (Dir [(''big'', File 9007199254740992), (''one'', File 1)]) [''T''] None ())) =
     9007199254740992 \<and>
   sum_list (regularFileSizes False
     (Dir [(''big'', File 9007199254740992), (''one'', File 1)])) = 9007199254740993"
  by (simp add: getDirectorySize_walked addAll_Nil addAll_Cons jsAdd_def toDouble_values)

text \<open>C1, amended: for every tree \<open>T\<close> whose walk meets at most \<open>2^53\<close> bytes in at most
  \<open>2^53\<close> files, the size returned by \<^verbatim>\<open>getDirectorySize\<close> is the exact sum of the byte
  sizes of the regular files met on the paths from \<open>T\<close> through directories and through
  symbolic links, and the item count is the number of these paths. A file that several
  paths lead to, by a link or around a loop of links, is counted once for each of them.
  Special nodes and nodes whose access fails add nothing.\<close>

theorem getDirectorySize_exact_sum:
  assumes "sum_list (regularFileSizes True T) \<le> 2 ^ 53"
    and "length (regularFileSizes True T) \<le> 2 ^ 53"
  shows "r_size (fst (getDirectorySize T dirPath callback s)) =
      sum_list (regularFileSizes True T) \<and>
    r_items (fst (getDirectorySize T dirPath callback s)) = length (regularFileSizes True T)"
proof -
  have sz: "map f_size (visited dirPath T) = regularFileSizes True T"
    by (simp add: visited_sizes map_toDouble_exact [OF assms(1)])
  have "addAll 0 (map f_size (visited dirPath T)) = sum_list (regularFileSizes True T)"
    unfolding sz using addAll_exact [of 0 "regularFileSizes True T"] assms(1) by simp
  moreover have "addAll 0 (map (\<lambda>f. 1) (visited dirPath T)) = length (regularFileSizes True T)"
    using addAll_count [of 0 "visited dirPath T"] assms(2) by (simp add: visited_length)
  ultimately show ?thesis
    by (simp add: getDirectorySize_walked)
qed

theorem getDirectorySize_exact_sum_witness:
  "sum_list (regularFileSizes True
     (Dir [(''a'', File 100), (''l'', Symlink (File 200)), (''d'', Dir [(''b'', File 300)])]))
     \<le> 2 ^ 53 \<and>
   length (regularFileSizes True
     (Dir [(''a'', File 100), (''l'', Symlink (File 200)), (''d'', Dir [(''b'', File 300)])]))
     \<le> 2 ^ 53 \<and>
   r_size (fst (getDirectorySize
     (Dir [(''a'', File 100), (''l'', Symlink (File 200)), (''d'', Dir [(''b'', File 300)])])
     [''T''] None ())) = 600 \<and>
   r_items (fst (getDirectorySize
     (Dir [(''a'', File 100), (''l'', Symlink (File 200)), (''d'', Dir [(''b'', File 300)])])
     [''T''] None ())) = 3"
  using getDirectorySize_exact_sum
    [of "Dir [(''a'', File 100), (''l'', Symlink (File 200)), (''d'', Dir [(''b'', File 300)])]"
      "[''T'']" None "()"]
  by simp

text \<open>C3: when the root path does not exist, \<^verbatim>\<open>getDirectorySize\<close> returns size 0, 0 items
  and an empty list of files; the callback is not called and nothing is written to
  \<^verbatim>\<open>console.error\<close>. The result is a value: no error is raised.\<close>

theorem getDirectorySize_nonexistent:
  "\<not> existsSync root \<Longrightarrow>
   getDirectorySize root dirPath callback s =
     (\<lparr>r_size = 0, r_items = 0, r_files = []\<rparr>, s, [])"
  by (simp add: getDirectorySize_def processDirectory.simps)

theorem getDirectorySize_nonexistent_witness:
  "\<not> existsSync (Symlink Missing) \<and>
   getDirectorySize (Symlink Missing) [''Users'', ''me'', ''gone''] None () =
     (\<lparr>r_size = 0, r_items = 0, r_files = []\<rparr>, (), [])"
  using getDirectorySize_nonexistent [of "Symlink Missing" "[''Users'', ''me'', ''gone'']" None "()"]
  by simp

text \<open>C4: a node at which a call throws is caught at that node: the walk of it changes
  nothing but the diagnostic output, where its path is written. In a directory, at any
  depth and from any running totals, the entries before and after such a node are
  walked as if it were not listed. A directory with one unreadable subdirectory and one
  readable file gives the statistics of the file alone, its size as \<^verbatim>\<open>statSync\<close> reports
  it.\<close>

theorem processDirectory_access_failure:
  assumes "accessFails x"
  shows "processDirectory cb p x w = w\<lparr>console := console w @ [p]\<rparr> \<and>
    totalSize (processDirectory cb p (Dir (before @ (nm, x) # after)) w) =
      totalSize (processDirectory cb p (Dir (before @ after)) w) \<and>
    itemCount (processDirectory cb p (Dir (before @ (nm, x) # after)) w) =
      itemCount (processDirectory cb p (Dir (before @ after)) w) \<and>
    processedItems (processDirectory cb p (Dir (before @ (nm, x) # after)) w) =
      processedItems (processDirectory cb p (Dir (before @ after)) w) \<and>
    sink (processDirectory cb p (Dir (before @ (nm, x) # after)) w) =
      sink (processDirectory cb p (Dir (before @ after)) w) \<and>
    join p nm \<in> set (console (processDirectory cb p (Dir (before @ (nm, x) # after)) w)) \<and>
    getDirectorySize (Dir [(nm, x), (f, File k)]) p cb s =
      (\<lparr>r_size = toDouble k, r_items = 1,
        r_files = [\<lparr>f_path = join p f, f_size = toDouble k, f_name = f\<rparr>]\<rparr>,
       emit cb [\<lparr>currentFile = f, p_totalSize = toDouble k, p_itemCount = 1,
                 inProgress = True\<rparr>] s,
       [join p nm])"
proof -
  have none: "\<And>q. visited q x = []" and one: "\<And>q. faults q x = [q]"
    using assms accessFails_walk by blast+
  have base: "basename (join p f) = f"
    by (simp add: basename_def join_def)
  have "processDirectory cb p x w = w\<lparr>console := console w @ [p]\<rparr>"
    by (simp add: processDirectory_walked none one walked_def emit_def addAll_Nil
        split: option.splits)
  moreover have "totalSize (processDirectory cb p (Dir (before @ (nm, x) # after)) w) =
      totalSize (processDirectory cb p (Dir (before @ after)) w)"
    by (simp add: processDirectory_walked walked_def none)
  moreover have "itemCount (processDirectory cb p (Dir (before @ (nm, x) # after)) w) =
      itemCount (processDirectory cb p (Dir (before @ after)) w)"
    by (simp add: processDirectory_walked walked_def none)
  moreover have "processedItems (processDirectory cb p (Dir (before @ (nm, x) # after)) w) =
      processedItems (processDirectory cb p (Dir (before @ after)) w)"
    by (simp add: processDirectory_walked walked_def none)
  moreover have "sink (processDirectory cb p (Dir (before @ (nm, x) # after)) w) =
      sink (processDirectory cb p (Dir (before @ after)) w)"
    by (simp add: processDirectory_walked walked_def none)
  moreover have
    "join p nm \<in> set (console (processDirectory cb p (Dir (before @ (nm, x) # after)) w))"
    by (simp add: processDirectory_walked walked_def one)
  moreover have "getDirectorySize (Dir [(nm, x), (f, File k)]) p cb s =
      (\<lparr>r_size = toDouble k, r_items = 1,
        r_files = [\<lparr>f_path = join p f, f_size = toDouble k, f_name = f\<rparr>]\<rparr>,
       emit cb [\<lparr>currentFile = f, p_totalSize = toDouble k, p_itemCount = 1,
                 inProgress = True\<rparr>] s,
       [join p nm])"
    by (simp add: getDirectorySize_walked none one base addAll_Nil addAll_Cons jsAdd_def
        toDouble_idem toDouble_values)
  ultimately show ?thesis by blast
qed

theorem processDirectory_access_failure_witness:
  "accessFails (DirUnreadable EACCES) \<and>
   getDirectorySize (Dir [(''locked'', DirUnreadable EACCES), (''a.txt'', File 42)]) [''T''] None () =
     (\<lparr>r_size = 42, r_items = 1,
       r_files = [\<lparr>f_path = [''T'', ''a.txt''], f_size = 42, f_name = ''a.txt''\<rparr>]\<rparr>,
      (), [[''T'', ''locked'']])"
proof -
  have h: "accessFails (DirUnreadable EACCES)"
    by (simp add: accessFails_def)
  show ?thesis
    using h processDirectory_access_failure [OF h, of None "[''T'']" _ _ "''locked''" _ "''a.txt''" 42 "()"]
    by (simp add: join_def emit_def toDouble_values)
qed

text \<open>C5, as the specification states it, fails for symbolic links: a link to a file of
  7 bytes is counted as that file, and a link to a directory is descended into.\<close>

theorem getDirectorySize_follows_symlink:
  "getDirectorySize (Symlink (File 7)) [''T''] None () =
     (\<lparr>r_size = 7, r_items = 1,
       r_files = [\<lparr>f_path = [''T''], f_size = 7, f_name = ''T''\<rparr>]\<rparr>, (), []) \<and>
   getDirectorySize (Dir [(''ln'', Symlink (Dir [(''f'', File 7)]))]) [''T''] None () =
     (\<lparr>r_size = 7, r_items = 1,
       r_files = [\<lparr>f_path = [''T'', ''ln'', ''f''], f_size = 7, f_name = ''f''\<rparr>]\<rparr>, (), [])"
  by (simp add: getDirectorySize_walked join_def basename_def emit_def addAll_Nil addAll_Cons
      jsAdd_def toDouble_values)

text \<open>C5, amended: a node that \<^verbatim>\<open>statSync\<close> reports as neither a regular file nor a
  directory (a socket, a device) is skipped silently: nothing is counted, the callback is
  not called and nothing is written to \<^verbatim>\<open>console.error\<close>. A symbolic link is not such a
  node: it is walked exactly as its target is.\<close>

theorem processDirectory_special_node:
  assumes "statSync n = Inr st" and "\<not> isFile st" and "\<not> isDirectory st"
  shows "processDirectory cb p n w = w \<and>
    processDirectory cb p (Symlink t) w = processDirectory cb p t w"
  using assms by (simp add: processDirectory.simps [of cb p n] processDirectory_Symlink)

theorem processDirectory_special_node_witness:
  "statSync Other = Inr \<lparr>isFile = False, isDirectory = False, st_size = 0\<rparr> \<and>
   processDirectory None [''T'', ''sock''] Other
     \<lparr>totalSize = 3, itemCount = 1, processedItems = [], sink = (), console = []\<rparr> =
     \<lparr>totalSize = 3, itemCount = 1, processedItems = [], sink = (), console = []\<rparr>"
  using processDirectory_special_node [of Other
      "\<lparr>isFile = False, isDirectory = False, st_size = 0\<rparr>" None "[''T'', ''sock'']"
      "\<lparr>totalSize = 3, itemCount = 1, processedItems = [], sink = (), console = []\<rparr>"]
  by simp

text \<open>C9, as stated for every tree, fails: for a file of \<open>2^53\<close> bytes followed by a file
  of 1 byte the records hold \<open>2^53\<close> and 1, which add up to \<open>2^53 + 1\<close>, and the returned
  size is \<open>2^53\<close>, the nearest double.\<close>

theorem getDirectorySize_size_rounded:
  "map f_size (r_files (fst (getDirectorySize
     (Dir [(''big'', File 9007199254740992), (''one'', File 1)]) [''T''] None ()))) =
     [9007199254740992, 1] \<and>
   sum_list (map f_size (r_files (fst (getDirectorySize
     (Dir [(''big'', File 9007199254740992), (''one'', File 1)]) [''T''] None ())))) =
     9007199254740993 \<and>
   r_size (fst (getDirectorySize
     (Dir [(''big'', File 9007199254740992), (''one'', File 1)]) [''T''] None ())) =
     9007199254740992"
  by (simp add: getDirectorySize_walked addAll_Nil addAll_Cons jsAdd_def toDouble_values)

text \<open>C9, amended: whenever the sizes in the returned list of files add up to at most
  \<open>2^53\<close> and the list has at most \<open>2^53\<close> records, the result of \<^verbatim>\<open>getDirectorySize\<close> is
  consistent with itself: the list has as many records as the item count says, and their
  sizes add up to the returned size.\<close>

theorem getDirectorySize_consistent:
  assumes "sum_list (map f_size (r_files (fst (getDirectorySize root dirPath callback s))))
      \<le> 2 ^ 53"
    and "length (r_files (fst (getDirectorySize root dirPath callback s))) \<le> 2 ^ 53"
  shows "length (r_files (fst (getDirectorySize root dirPath callback s))) =
     r_items (fst (getDirectorySize root dirPath callback s)) \<and>
   sum_list (map f_size (r_files (fst (getDirectorySize root dirPath callback s)))) =
     r_size (fst (getDirectorySize root dirPath callback s))"
proof -
  from assms have b: "sum_list (map f_size (visited dirPath root)) \<le> 2 ^ 53"
      "length (visited dirPath root) \<le> 2 ^ 53"
    by (simp_all add: getDirectorySize_walked)
  have "addAll 0 (map f_size (visited dirPath root)) = sum_list (map f_size (visited dirPath root))"
    using addAll_exact [of 0 "map f_size (visited dirPath root)"] b(1) by simp
  moreover have "addAll 0 (map (\<lambda>f. 1) (visited dirPath root)) = length (visited dirPath root)"
    using addAll_count [of 0 "visited dirPath root"] b(2) by simp
  ultimately show ?thesis
    by (simp add: getDirectorySize_walked)
qed

theorem getDirectorySize_consistent_witness:
  "sum_list (map f_size (r_files (fst (getDirectorySize
     (Dir [(''a'', File 100), (''b'', File 200), (''c'', File 300)]) [''T''] None ())))) = 600 \<and>
   length (r_files (fst (getDirectorySize
     (Dir [(''a'', File 100), (''b'', File 200), (''c'', File 300)]) [''T''] None ()))) = 3 \<and>
   r_size (fst (getDirectorySize
     (Dir [(''a'', File 100), (''b'', File 200), (''c'', File 300)]) [''T''] None ())) = 600 \<and>
   r_items (fst (getDirectorySize
     (Dir [(''a'', File 100), (''b'', File 200), (''c'', File 300)]) [''T''] None ())) = 3"
proof -
  have f: "map f_size (r_files (fst (getDirectorySize
      (Dir [(''a'', File 100), (''b'', File 200), (''c'', File 300)]) [''T''] None ()))) =
      [100, 200, 300]"
    by (simp add: getDirectorySize_walked toDouble_values)
  have 1: "sum_list (map f_size (r_files (fst (getDirectorySize
      (Dir [(''a'', File 100), (''b'', File 200), (''c'', File 300)]) [''T''] None ()))))
      \<le> 2 ^ 53"
    unfolding f by simp
  have len: "length (r_files (fst (getDirectorySize
      (Dir [(''a'', File 100), (''b'', File 200), (''c'', File 300)]) [''T''] None ()))) = 3"
    by (simp add: getDirectorySize_walked)
  have 2: "length (r_files (fst (getDirectorySize
      (Dir [(''a'', File 100), (''b'', File 200), (''c'', File 300)]) [''T''] None ())))
      \<le> 2 ^ 53"
    unfolding len by simp
  have sum: "sum_list (map f_size (r_files (fst (getDirectorySize
      (Dir [(''a'', File 100), (''b'', File 200), (''c'', File 300)]) [''T''] None ())))) = 600"
    unfolding f by simp
  from getDirectorySize_consistent [OF 1 2] sum len
  show ?thesis by simp
qed

section \<open>The two example disks\<close>

lemma bigDisk_files:
  "categoryFiles [''Users'', ''me''] bigDisk Cookies =
     [\<lparr>f_path = [''Users'', ''me'', ''Library'', ''Cookies'', ''big''],
       f_size = 9007199254740992, f_name = ''big''\<rparr>]"
  "categoryFiles [''Users'', ''me''] bigDisk Cache =
     [\<lparr>f_path = [''Users'', ''me'', ''Library'', ''Caches'', ''com.apple.Safari'', ''one''],
       f_size = 1, f_name = ''one''\<rparr>]"
  "categoryFiles [''Users'', ''me''] bigDisk History =
     [\<lparr>f_path = [''Users'', ''me'', ''Library'', ''Safari'', ''h''], f_size = 1, f_name = ''h''\<rparr>]"
  "categoryFiles [''Users'', ''me''] bigDisk LocalStorage = []"
  "categoryFiles [''Users'', ''me''] bigDisk Databases = []"
  by (simp_all add: categoryFiles_def SAFARI_PATHS_def bigDisk_def join_def basename_def
      toDouble_values)

lemma smallDisk_files:
  "map f_size (categoryFiles [''Users'', ''me''] smallDisk Cookies) = [100, 200, 300]"
  "map f_size (categoryFiles [''Users'', ''me''] smallDisk Cache) = []"
  "map f_size (categoryFiles [''Users'', ''me''] smallDisk History) = [50, 7]"
  "map f_size (categoryFiles [''Users'', ''me''] smallDisk LocalStorage) = [7]"
  "map f_size (categoryFiles [''Users'', ''me''] smallDisk Databases) = []"
  by (simp_all add: categoryFiles_def SAFARI_PATHS_def smallDisk_def join_def basename_def
      toDouble_values)

lemma smallDisk_lengths:
  "length (categoryFiles [''Users'', ''me''] smallDisk Cookies) = 3"
  "length (categoryFiles [''Users'', ''me''] smallDisk Cache) = 0"
  "length (categoryFiles [''Users'', ''me''] smallDisk History) = 2"
  "length (categoryFiles [''Users'', ''me''] smallDisk LocalStorage) = 1"
  "length (categoryFiles [''Users'', ''me''] smallDisk Databases) = 0"
  by (simp_all add: categoryFiles_def SAFARI_PATHS_def smallDisk_def)

lemma smallDisk_counts:
  "addAll 0 (map (\<lambda>f. Suc 0) (categoryFiles [''Users'', ''me''] smallDisk Cookies)) = 3"
  "addAll 0 (map (\<lambda>f. Suc 0) (categoryFiles [''Users'', ''me''] smallDisk Cache)) = 0"
  "addAll 0 (map (\<lambda>f. Suc 0) (categoryFiles [''Users'', ''me''] smallDisk History)) = 2"
  "addAll 0 (map (\<lambda>f. Suc 0) (categoryFiles [''Users'', ''me''] smallDisk LocalStorage)) = 1"
  "addAll 0 (map (\<lambda>f. Suc 0) (categoryFiles [''Users'', ''me''] smallDisk Databases)) = 0"
  using addAll_count [of 0 "categoryFiles [''Users'', ''me''] smallDisk Cookies"]
    addAll_count [of 0 "categoryFiles [''Users'', ''me''] smallDisk Cache"]
    addAll_count [of 0 "categoryFiles [''Users'', ''me''] smallDisk History"]
    addAll_count [of 0 "categoryFiles [''Users'', ''me''] smallDisk LocalStorage"]
    addAll_count [of 0 "categoryFiles [''Users'', ''me''] smallDisk Databases"]
  by (simp_all add: smallDisk_lengths)

lemma smallDisk_sizes:
  "regularFileSizes True (smallDisk (SAFARI_PATHS [''Users'', ''me''] Cookies)) = [100, 200, 300]"
  "regularFileSizes True (smallDisk (SAFARI_PATHS [''Users'', ''me''] Cache)) = []"
  "regularFileSizes True (smallDisk (SAFARI_PATHS [''Users'', ''me''] History)) = [50, 7]"
  "regularFileSizes True (smallDisk (SAFARI_PATHS [''Users'', ''me''] LocalStorage)) = [7]"
  "regularFileSizes True (smallDisk (SAFARI_PATHS [''Users'', ''me''] Databases)) = []"
  by (simp_all add: SAFARI_PATHS_def smallDisk_def)

lemmas addAll_values = addAll_Nil addAll_Cons jsAdd_def toDouble_values

text \<open>On the small disk, a callback that reads the first event at once finds 0 bytes and
  0 items in it; one that keeps it and reads it after the scan finds 664 bytes and 6
  items.\<close>

lemma readLater_smallDisk:
  "hd (out (scanSafariStorage (Some recordEvent) [''Users'', ''me''] smallDisk [])) =
     Started Cookies ''Scanning Browsing cookies...'' \<lparr>t_size = 0, t_items = 0\<rparr> \<and>
   readLater (res (scanSafariStorage (Some recordEvent) [''Users'', ''me''] smallDisk []))
     (hd (out (scanSafariStorage (Some recordEvent) [''Users'', ''me''] smallDisk []))) =
     Started Cookies ''Scanning Browsing cookies...'' \<lparr>t_size = 664, t_items = 6\<rparr>"
  by (simp add: recorded_scan res_scan categories_def categoryEvents_def addCategory_def
      initialResults_def smallDisk_files smallDisk_counts addAll_values)

section \<open>Claims about scanSafariStorage\<close>

text \<open>C2, as stated for every run, fails: on a disk with a cookie file of \<open>2^53\<close> bytes and
  one file of one byte in each of the cache and the history, the categories hold
  \<open>2^53\<close>, 1 and 1 bytes, \<open>2^53 + 2\<close> together, and \<^verbatim>\<open>total.size\<close> is \<open>2^53\<close>: each of the two
  additions of 1 is rounded away.\<close>

theorem scanSafariStorage_total_rounded:
  "s_size (byCategory (res (scanSafariStorage None [''Users'', ''me''] bigDisk ())) Cookies) =
     9007199254740992 \<and>
   s_size (byCategory (res (scanSafariStorage None [''Users'', ''me''] bigDisk ())) Cache) = 1 \<and>
   s_size (byCategory (res (scanSafariStorage None [''Users'', ''me''] bigDisk ())) History) = 1 \<and>
   slotSizes (res (scanSafariStorage None [''Users'', ''me''] bigDisk ())) = 9007199254740994 \<and>
   t_size (total (res (scanSafariStorage None [''Users'', ''me''] bigDisk ()))) =
     9007199254740992"
  by (simp add: res_scan categories_def addCategory_def initialResults_def slotSizes_def
      bigDisk_files addAll_values)

text \<open>C2, amended: in the summary returned by \<^verbatim>\<open>scanSafariStorage\<close>, whenever the sizes of
  the five categories add up to at most \<open>2^53\<close>, \<^verbatim>\<open>total.size\<close> is exactly their sum, and
  whenever their item counts add up to at most \<open>2^53\<close>, \<^verbatim>\<open>total.items\<close> is exactly their
  sum; whatever the disk holds (unreadable and missing paths included) and whether or not
  a progress callback is given.\<close>

theorem scanSafariStorage_total_is_sum:
  "(slotSizes (res (scanSafariStorage pc homedir disk s)) \<le> 2 ^ 53 \<longrightarrow>
      t_size (total (res (scanSafariStorage pc homedir disk s))) =
        slotSizes (res (scanSafariStorage pc homedir disk s))) \<and>
   (slotItems (res (scanSafariStorage pc homedir disk s)) \<le> 2 ^ 53 \<longrightarrow>
      t_items (total (res (scanSafariStorage pc homedir disk s))) =
        slotItems (res (scanSafariStorage pc homedir disk s)))"
  by (simp add: res_scan categories_def addCategory_def initialResults_def slotSizes_def
      slotItems_def jsAdd5)

theorem scanSafariStorage_total_is_sum_witness:
  "slotSizes (res (scanSafariStorage None [''Users'', ''me''] smallDisk ())) \<le> 2 ^ 53 \<and>
   slotItems (res (scanSafariStorage None [''Users'', ''me''] smallDisk ())) \<le> 2 ^ 53 \<and>
   t_size (total (res (scanSafariStorage None [''Users'', ''me''] smallDisk ()))) = 664 \<and>
   t_items (total (res (scanSafariStorage None [''Users'', ''me''] smallDisk ()))) = 6"
proof -
  have sz: "slotSizes (res (scanSafariStorage None [''Users'', ''me''] smallDisk ())) = 664"
    by (simp add: res_scan categories_def addCategory_def initialResults_def slotSizes_def
        smallDisk_files smallDisk_counts addAll_values)
  have it: "slotItems (res (scanSafariStorage None [''Users'', ''me''] smallDisk ())) = 6"
    by (simp add: res_scan categories_def addCategory_def initialResults_def slotItems_def
        smallDisk_files smallDisk_counts addAll_values)
  from scanSafariStorage_total_is_sum [of None "[''Users'', ''me'']" smallDisk "()"]
  show ?thesis
    unfolding sz it by simp
qed

text \<open>C6: any progress callback is given the same events in the same order, those a
  recording callback keeps. They carry the category names in the order
  cookies, cache, history, localStorage, databases: the names of the recorded events, with
  repetitions of a name in a row written once, are exactly this list. Within a category
  the running size and the running item count of the per-file events never decrease, and
  neither do the grand totals over the whole scan.\<close>

theorem scanSafariStorage_progress_order:
  "out (scanSafariStorage (Some pc) homedir disk s) =
     fold pc (out (scanSafariStorage (Some recordEvent) homedir disk [])) s \<and>
   remdups_adj (map scanningOf (out (scanSafariStorage (Some recordEvent) homedir disk []))) =
     [Cookies, Cache, History, LocalStorage, Databases] \<and>
   sorted (map fst (categoryProgress c (out (scanSafariStorage (Some recordEvent) homedir disk [])))) \<and>
   sorted (map snd (categoryProgress c (out (scanSafariStorage (Some recordEvent) homedir disk [])))) \<and>
   sorted (map (\<lambda>e. t_size (grandTotal e))
     (out (scanSafariStorage (Some recordEvent) homedir disk []))) \<and>
   sorted (map (\<lambda>e. t_items (grandTotal e))
     (out (scanSafariStorage (Some recordEvent) homedir disk [])))"
proof -
  have d: "distinct categories"
    by (simp add: categories_def)
  have "remdups_adj (map scanningOf (scanEvents homedir disk initialResults categories)) =
      [Cookies, Cache, History, LocalStorage, Databases]"
    unfolding scanningOf_scanEvents by (simp add: categories_def)
  moreover have
    "sorted (map fst (categoryProgress c (scanEvents homedir disk initialResults categories)))"
    "sorted (map snd (categoryProgress c (scanEvents homedir disk initialResults categories)))"
    using progressList_sorted [of 0 0 "categoryFiles homedir disk c"]
    by (simp_all add: categoryProgress_scanEvents [OF d] comp_def)
  moreover have
    "sorted (map (\<lambda>e. t_size (grandTotal e)) (scanEvents homedir disk initialResults categories))"
    "sorted (map (\<lambda>e. t_items (grandTotal e)) (scanEvents homedir disk initialResults categories))"
    using grandTotal_scanEvents [of initialResults homedir disk categories]
    by (simp_all add: initialResults_def toDouble_0)
  moreover have "out (scanSafariStorage (Some pc) homedir disk s) =
      fold pc (scanEvents homedir disk initialResults categories) s"
    by (simp add: out_scan emit_def)
  ultimately show ?thesis
    unfolding recorded_scan by blast
qed

text \<open>C7, as stated for every event, fails: on the disk with a cookie file of \<open>2^53\<close> bytes,
  the event for the one-byte file of the cache, the fourth event of the scan, carries the
  running subtotal 1 and the grand total \<open>2^53\<close>, while the cookies, the one category
  completed before, hold \<open>2^53\<close> bytes: the sum would be \<open>2^53 + 1\<close>.\<close>

theorem scanSafariStorage_grand_total_rounded:
  "out (scanSafariStorage (Some recordEvent) [''Users'', ''me''] bigDisk []) ! 3 =
     Found Cache ''Found: one'' 1 1 \<lparr>t_size = 9007199254740992, t_items = 2\<rparr> \<and>
   completedBefore [''Users'', ''me''] bigDisk Cache =
     \<lparr>t_size = 9007199254740992, t_items = 1\<rparr>"
  by (simp add: recorded_scan categories_def categoryEvents_def fileEvents_def bigDisk_files
      addCategory_def initialResults_def completedBefore_def categoryResult_walked
      addAll_values)

text \<open>C7, amended: in a scan that walks at most \<open>2^53\<close> bytes in at most \<open>2^53\<close> files, every
  per-file event carries a grand total equal to the sum of what \<^verbatim>\<open>getDirectorySize\<close>
  returns for the categories completed before its own, plus the running subtotal of its
  own category that the same event carries; the event that opens a category carries the
  sum for the completed categories alone. The running subtotals of a category are those
  of its walk: after the \<open>k\<close>-th file, the sum of the sizes of the first \<open>k\<close> files and the
  count \<open>k\<close>.\<close>

theorem scanSafariStorage_grand_total:
  assumes "scanBytes homedir disk \<le> 2 ^ 53" and "scanFiles homedir disk \<le> 2 ^ 53"
  shows "list_all (\<lambda>e. case e of
       Started d m cur \<Rightarrow> cur = completedBefore homedir disk d
     | Found d m sz n tot \<Rightarrow>
         tot = \<lparr>t_size = t_size (completedBefore homedir disk d) + sz,
                t_items = t_items (completedBefore homedir disk d) + n\<rparr>)
     (out (scanSafariStorage (Some recordEvent) homedir disk [])) \<and>
   categoryProgress c (out (scanSafariStorage (Some recordEvent) homedir disk [])) =
     runningTotals (map f_size (r_files (categoryResult homedir disk c)))"
proof -
  define b where "b d = sum_list (regularFileSizes True (disk (SAFARI_PATHS homedir d)))" for d
  define n where "n d = length (regularFileSizes True (disk (SAFARI_PATHS homedir d)))" for d
  define sz where "sz d = addAll 0 (map f_size (categoryFiles homedir disk d))" for d
  define it where "it d = addAll 0 (map (\<lambda>f. 1) (categoryFiles homedir disk d))" for d
  define r1 where "r1 = addCategory homedir disk Cookies initialResults"
  define r2 where "r2 = addCategory homedir disk Cache r1"
  define r3 where "r3 = addCategory homedir disk History r2"
  define r4 where "r4 = addCategory homedir disk LocalStorage r3"
  have B: "b Cookies + b Cache + b History + b LocalStorage + b Databases \<le> 2 ^ 53"
    using assms(1) by (simp add: scanBytes_def categories_def b_def)
  have N: "n Cookies + n Cache + n History + n LocalStorage + n Databases \<le> 2 ^ 53"
    using assms(2) by (simp add: scanFiles_def categories_def n_def)
  have bd: "b d \<le> 2 ^ 53" and nd: "n d \<le> 2 ^ 53" for d
    using B N by (cases d; simp)+
  have szb: "sz d = b d" and itn: "it d = n d" for d
    using category_exact(3,4) [of disk homedir d] bd [of d] nd [of d]
    by (simp_all add: sz_def it_def b_def n_def)
  have szb': "addAll 0 (map f_size (categoryFiles homedir disk d)) = b d"
    and itn': "addAll 0 (map (\<lambda>f. Suc 0) (categoryFiles homedir disk d)) = n d" for d
    using szb [of d] itn [of d] by (simp_all add: sz_def it_def)
  have files: "sum_list (map f_size (categoryFiles homedir disk d)) = b d"
      "length (categoryFiles homedir disk d) = n d" for d
    using category_exact(1,2) [of disk homedir d] bd [of d] nd [of d]
    by (simp_all add: b_def n_def)
  have rs: "r_size (categoryResult homedir disk d) = b d"
      "r_items (categoryResult homedir disk d) = n d" for d
    using szb [of d] itn [of d] by (simp_all add: categoryResult_walked sz_def it_def)
  have cb: "completedBefore homedir disk Cookies = \<lparr>t_size = 0, t_items = 0\<rparr>"
      "completedBefore homedir disk Cache = \<lparr>t_size = b Cookies, t_items = n Cookies\<rparr>"
      "completedBefore homedir disk History =
         \<lparr>t_size = b Cookies + b Cache, t_items = n Cookies + n Cache\<rparr>"
      "completedBefore homedir disk LocalStorage =
         \<lparr>t_size = b Cookies + b Cache + b History,
          t_items = n Cookies + n Cache + n History\<rparr>"
      "completedBefore homedir disk Databases =
         \<lparr>t_size = b Cookies + b Cache + b History + b LocalStorage,
          t_items = n Cookies + n Cache + n History + n LocalStorage\<rparr>"
    by (simp_all add: completedBefore_def categories_def rs)
  have t0: "total initialResults = \<lparr>t_size = 0, t_items = 0\<rparr>"
    by (simp add: initialResults_def)
  have t1: "total r1 = \<lparr>t_size = b Cookies, t_items = n Cookies\<rparr>"
    unfolding r1_def using B N
    by (subst addCategory_total_exact)
       (simp_all add: t0 rs szb' itn')
  have t2: "total r2 = \<lparr>t_size = b Cookies + b Cache, t_items = n Cookies + n Cache\<rparr>"
    unfolding r2_def using B N
    by (subst addCategory_total_exact)
       (simp_all add: t1 rs szb' itn')
  have t3: "total r3 = \<lparr>t_size = b Cookies + b Cache + b History,
      t_items = n Cookies + n Cache + n History\<rparr>"
    unfolding r3_def using B N
    by (subst addCategory_total_exact)
       (simp_all add: t2 rs szb' itn')
  have t4: "total r4 = \<lparr>t_size = b Cookies + b Cache + b History + b LocalStorage,
      t_items = n Cookies + n Cache + n History + n LocalStorage\<rparr>"
    unfolding r4_def using B N
    by (subst addCategory_total_exact)
       (simp_all add: t3 rs szb' itn')
  let ?P = "\<lambda>e. case e of
       Started d m cur \<Rightarrow> cur = completedBefore homedir disk d
     | Found d m sz n tot \<Rightarrow>
         tot = \<lparr>t_size = t_size (completedBefore homedir disk d) + sz,
                t_items = t_items (completedBefore homedir disk d) + n\<rparr>"
  have k1: "list_all ?P (categoryEvents homedir disk Cookies initialResults)"
    using B N by (intro categoryEvents_exact)
      (simp_all add: cb t0 szb' itn')
  have k2: "list_all ?P (categoryEvents homedir disk Cache r1)"
    using B N by (intro categoryEvents_exact)
      (simp_all add: cb t1 szb' itn')
  have k3: "list_all ?P (categoryEvents homedir disk History r2)"
    using B N by (intro categoryEvents_exact)
      (simp_all add: cb t2 szb' itn')
  have k4: "list_all ?P (categoryEvents homedir disk LocalStorage r3)"
    using B N by (intro categoryEvents_exact)
      (simp_all add: cb t3 szb' itn')
  have k5: "list_all ?P (categoryEvents homedir disk Databases r4)"
    using B N by (intro categoryEvents_exact)
      (simp_all add: cb t4 szb' itn')
  have all: "list_all ?P (scanEvents homedir disk initialResults categories)"
    using k1 k2 k3 k4 k5
    by (simp add: categories_def r1_def r2_def r3_def r4_def)
  have d: "distinct categories"
    by (simp add: categories_def)
  have c: "c \<in> set categories"
    by (cases c) (simp_all add: categories_def)
  have "map (\<lambda>pr. (p_totalSize pr, p_itemCount pr)) (progressList 0 0 (categoryFiles homedir disk c)) =
      map (\<lambda>(x, y). (0 + x, 0 + y)) (runningTotals (map f_size (categoryFiles homedir disk c)))"
    using bd [of c] nd [of c] by (intro progressList_exact) (simp_all add: files)
  then have run: "categoryProgress c (scanEvents homedir disk initialResults categories) =
      runningTotals (map f_size (categoryFiles homedir disk c))"
    by (simp add: categoryProgress_scanEvents [OF d] c)
  show ?thesis
    unfolding recorded_scan using all run by (simp add: categoryResult_walked)
qed

theorem scanSafariStorage_grand_total_witness:
  "scanBytes [''Users'', ''me''] smallDisk \<le> 2 ^ 53 \<and>
   scanFiles [''Users'', ''me''] smallDisk \<le> 2 ^ 53 \<and>
   categoryProgress Cookies (out (scanSafariStorage (Some recordEvent) [''Users'', ''me''] smallDisk [])) =
     [(100, 1), (300, 2), (600, 3)] \<and>
   categoryProgress History (out (scanSafariStorage (Some recordEvent) [''Users'', ''me''] smallDisk [])) =
     [(50, 1), (57, 2)]"
proof -
  have 1: "scanBytes [''Users'', ''me''] smallDisk \<le> 2 ^ 53"
    by (simp add: scanBytes_def categories_def smallDisk_sizes)
  have 2: "scanFiles [''Users'', ''me''] smallDisk \<le> 2 ^ 53"
    by (simp add: scanFiles_def categories_def smallDisk_sizes)
  have r: "runningTotals [100, 200, 300] = [(100, 1), (300, 2), (600, 3)]"
      "runningTotals [50, 7] = [(50, 1), (57, 2)]"
    by (simp_all add: runningTotals_Cons runningTotals_def)
  from scanSafariStorage_grand_total [OF 1 2, of Cookies]
    scanSafariStorage_grand_total [OF 1 2, of History]
  show ?thesis
    using 1 2 by (simp add: categoryResult_walked smallDisk_files r)
qed

section \<open>Claims about formatBytes\<close>

text \<open>C8, as the specification states it, fails: the number is not printed with two decimal
  digits. \<^verbatim>\<open>parseFloat\<close> turns the two-decimal string back into a number, and the
  number is printed without trailing zeros: 1536 bytes give \<^verbatim>\<open>1.5 KB\<close>, not
  \<^verbatim>\<open>1.50 KB\<close>, and 1073741824 bytes give \<^verbatim>\<open>1 GB\<close>, not \<^verbatim>\<open>1.00 GB\<close>.\<close>

theorem formatBytes_no_trailing_zeros:
  "formatBytes 1536 = ''1.5 KB'' \<and> formatBytes 1536 \<noteq> ''1.50 KB'' \<and>
   formatBytes 1073741824 = ''1 GB'' \<and> formatBytes 1073741824 \<noteq> ''1.00 GB''"
  by (simp add: formatBytes_1536 formatBytes_GB)

text \<open>C8, amended: zero is formatted as \<^verbatim>\<open>0 B\<close>. For a byte count from 1 up to, but not
  including, \<open>1024^4\<close>, the unit is the largest of B, KB, MB, GB whose scaled value is at
  least one (so the scaled value is below 1024); the scaled value is rounded to the
  nearest hundredth, upwards on a tie, and printed without trailing zeros: as a whole
  number when the hundredths are zero, and with one or two decimals that do not end in
  0 otherwise. In particular 1536 gives \<^verbatim>\<open>1.5 KB\<close> and 1073741824 gives \<^verbatim>\<open>1 GB\<close>.\<close>

theorem formatBytes_unit_and_rounding:
  assumes "0 < bytes" and "bytes < 1024 ^ 4"
  shows "formatBytes 0 = ''0 B'' \<and>
    (let i = floorLog 1024 bytes;
         v = toFixed2 bytes (1024 ^ i)
     in i < 4 \<and> 1024 ^ i \<le> bytes \<and> bytes < 1024 ^ Suc i \<and>
        formatBytes bytes = numberToString v @ '' '' @ [''B'', ''KB'', ''MB'', ''GB''] ! i \<and>
        2 * v * 1024 ^ i \<le> 200 * bytes + 1024 ^ i \<and>
        200 * bytes < 2 * v * 1024 ^ i + 1024 ^ i \<and>
        (if v mod 100 = 0 then numberToString v = showNat (v div 100)
         else last (numberToString v) \<noteq> CHR ''0'' \<and>
              (numberToString v = showNat (v div 100) @ [CHR ''.'', digit (v div 10)] \<or>
               numberToString v = showNat (v div 100) @ [CHR ''.'', digit (v div 10), digit v]))) \<and>
    formatBytes 1536 = ''1.5 KB'' \<and> formatBytes 1073741824 = ''1 GB''"
proof -
  have zero: "formatBytes 0 = ''0 B''"
    by (simp add: formatBytes_def)
  have small: "floorLog 1024 bytes < 4"
    using assms by (rule floorLog_small)
  have bounds: "1024 ^ floorLog 1024 bytes \<le> bytes" "bytes < 1024 ^ Suc (floorLog 1024 bytes)"
    using floorLog_bounds [of 1024 bytes] assms(1) by simp_all
  have fmt: "formatBytes bytes =
      numberToString (toFixed2 bytes (1024 ^ floorLog 1024 bytes)) @ '' '' @
      [''B'', ''KB'', ''MB'', ''GB''] ! floorLog 1024 bytes"
    using small by (simp add: formatBytes_pos [OF assms(1)] sizes_def)
  have near:
    "2 * toFixed2 bytes (1024 ^ floorLog 1024 bytes) * 1024 ^ floorLog 1024 bytes
       \<le> 200 * bytes + 1024 ^ floorLog 1024 bytes"
    "200 * bytes < 2 * toFixed2 bytes (1024 ^ floorLog 1024 bytes) * 1024 ^ floorLog 1024 bytes
       + 1024 ^ floorLog 1024 bytes"
    using toFixed2_nearest [of "1024 ^ floorLog 1024 bytes" bytes] by simp_all
  show ?thesis
    unfolding Let_def
    using zero small bounds fmt near
      numberToString_shape [of "toFixed2 bytes (1024 ^ floorLog 1024 bytes)"]
      formatBytes_1536 formatBytes_GB
    by blast
qed

theorem formatBytes_unit_and_rounding_witness:
  "(0::nat) < 1234 \<and> (1234::nat) < 1024 ^ 4 \<and> floorLog 1024 1234 = 1 \<and>
   toFixed2 1234 (1024 ^ 1) = 121 \<and> formatBytes 1234 = ''1.21 KB''"
proof -
  have i: "floorLog 1024 1234 = 1"
    by (simp add: floorLog.simps)
  have v: "toFixed2 1234 (1024 ^ 1) = 121"
    by (simp add: toFixed2_def)
  have s: "numberToString 121 = ''1.21''"
    by (simp add: numberToString_def showNat.simps digit_def)
  have h: "(0::nat) < 1234" "(1234::nat) < 1024 ^ 4"
    by simp_all
  from formatBytes_unit_and_rounding [OF h]
  have "formatBytes 1234 =
      numberToString (toFixed2 1234 (1024 ^ floorLog 1024 1234)) @ '' '' @
      [''B'', ''KB'', ''MB'', ''GB''] ! floorLog 1024 1234"
    unfolding Let_def by blast
  then have "formatBytes 1234 = ''1.21 KB''"
    using v by (simp add: i s)
  with i v h show ?thesis by blast
qed

text \<open>C10: for every byte count of at least \<open>1024^4\<close> the index computed by
  \<^verbatim>\<open>formatBytes\<close> lies beyond the four units, the unit is printed as \<^verbatim>\<open>undefined\<close>, and the
  result ends in none of B, KB, MB, GB.\<close>

theorem formatBytes_beyond_units:
  assumes "1024 ^ 4 \<le> bytes"
  shows "length sizes \<le> floorLog 1024 bytes \<and>
    (\<exists>num. formatBytes bytes = num @ '' undefined'') \<and>
    list_all (\<lambda>u. \<not> suffix u (formatBytes bytes)) sizes"
proof -
  have big: "4 \<le> floorLog 1024 bytes"
    using assms by (rule floorLog_large)
  have pos: "0 < bytes"
    using assms by (simp add: Suc_le_eq [symmetric] del: One_nat_def)
  have fmt: "formatBytes bytes =
      numberToString (toFixed2 bytes (1024 ^ floorLog 1024 bytes)) @ '' undefined''"
    using big by (simp add: formatBytes_pos [OF pos])
  have last_d: "last (formatBytes bytes) = CHR ''d''"
    unfolding fmt by simp
  have no: "\<And>u. u \<noteq> [] \<Longrightarrow> last u \<noteq> CHR ''d'' \<Longrightarrow> \<not> suffix u (formatBytes bytes)"
  proof
    fix u
    assume "u \<noteq> []" and ne: "last u \<noteq> CHR ''d''" and "suffix u (formatBytes bytes)"
    then obtain zs where "formatBytes bytes = zs @ u"
      by (auto simp: suffix_def)
    with \<open>u \<noteq> []\<close> have "last (formatBytes bytes) = last u"
      by simp
    with last_d ne show False by simp
  qed
  have "list_all (\<lambda>u. \<not> suffix u (formatBytes bytes)) sizes"
    by (simp add: sizes_def no)
  moreover have "\<exists>num. formatBytes bytes = num @ '' undefined''"
    using fmt by blast
  moreover have "length sizes \<le> floorLog 1024 bytes"
    using big by (simp add: sizes_def)
  ultimately show ?thesis
    by blast
qed

theorem formatBytes_beyond_units_witness:
  "(1024::nat) ^ 4 \<le> 1099511627776 \<and> formatBytes 1099511627776 = ''1 undefined'' \<and>
   \<not> suffix ''GB'' (formatBytes 1099511627776)"
proof -
  have h: "(1024::nat) ^ 4 \<le> 1099511627776"
    by simp
  from formatBytes_beyond_units [OF h]
  have "list_all (\<lambda>u. \<not> suffix u (formatBytes 1099511627776)) sizes"
    by blast
  then have "\<not> suffix ''GB'' (formatBytes 1099511627776)"
    by (simp only: sizes_def list.pred_inject) blast
  with h formatBytes_TB show ?thesis by blast
qed

end
